theory Spec2Isabelle
  imports Main
begin

section \<open>Values, objects and the reactive state\<close>

text \<open>
  The reactivity core of the repository (observer, dep, watcher and the array
  interceptor) is embedded as functions on an explicit state: the heap of objects,
  the Observers, the subscriber list of each Dep, the watchers, the components that
  own them, \<open>Dep.target\<close> with its stack, the flag \<open>shouldObserve\<close>, the
  scheduler's queue, and the counters that number Deps, watchers and Observers.
  An exception is a result: a function that can throw returns the exception or its
  value, together with the state it leaves.

  JavaScript values are the primitives and references to heap objects; numbers are
  the integers and NaN, which is all the strict comparisons of the sources can tell
  apart. User code is not part of the sources and comes from an environment: an
  evaluation function is given by the Deps it touches and its outcome, a callback by
  its outcome; they do not call back into the engine.
\<close>

datatype jsval =
    JUndefined | JNull | JBool bool | JNum int | JNaN | JStr string | JRef nat

text \<open>\<open>a === b\<close>: NaN is not equal to itself, references compare by address.\<close>

definition strict_eq :: "jsval \<Rightarrow> jsval \<Rightarrow> bool" where
  "strict_eq a b = (a \<noteq> JNaN \<and> a = b)"

text \<open>\<open>isObject\<close> of the utilities: \<open>obj !== null && typeof obj === 'object'\<close>.\<close>

definition isObject :: "jsval \<Rightarrow> bool" where
  "isObject v = (case v of JRef a \<Rightarrow> True | _ \<Rightarrow> False)"

datatype exn = TypeError | Thrown jsval

text \<open>
  What the engine does to its collaborators is recorded in a trace: warnings, errors
  handed to the error handler, and the calls of user code (watcher getters, watcher
  callbacks, custom setters, user-defined property setters), of \<open>update\<close>, and
  of a Dep's \<open>depend\<close> while a watcher is the active collector (the Dep, then the
  watcher). A callback event carries the new value, the old value and the watcher's
  cached value at the moment of the call.
\<close>

datatype event =
    Warn string
  | HandleError exn nat
  | GetterCall nat
  | CallbackCall nat jsval jsval jsval
  | UpdateCall nat
  | DependCall nat nat
  | CustomSetterCall
  | UserSetterCall nat jsval

text \<open>Property keys: a number (an array index when it is not negative) or a name.\<close>

datatype key = KNum int | KStr string

text \<open>
  A property is a data property, an accessor property whose getter and setter are
  user functions (numbered, interpreted by the environment), or the accessor pair
  installed by \<open>defineReactive\<close> together with the variables its closures share:
  the field's Dep, \<open>val\<close>, the captured getter and setter, \<open>childOb\<close>,
  \<open>shallow\<close> and whether a \<open>customSetter\<close> was given.
\<close>

datatype property =
    Data jsval
  | Accessor "nat option" "nat option"
  | Reactive (rdep: nat) (rval: jsval) (rgetter: "nat option") (rsetter: "nat option")
      (rchildOb: "nat option") (rshallow: bool) (rcustom: bool)

record pdesc =
  configurable :: bool
  enumerable :: bool
  writable :: bool
  slot :: property

datatype okind = PlainObject | ArrayObject | VNodeObject | OtherObject

text \<open>
  A heap object: its own properties in insertion order, the elements when it is an
  array, the hidden \<open>__ob__\<close> reference, \<open>Object.isExtensible\<close>, the \<open>_isVue\<close>
  flag, the keys it inherits through its prototype chain, and whether its mutating
  methods are the intercepted ones.
\<close>

record obj =
  kind :: okind
  props :: "(key \<times> pdesc) list"
  elems :: "jsval list"
  ob :: "nat option"
  extensible :: bool
  isVue :: bool
  inherited :: "key list"
  intercepted :: bool

record observer =
  ob_value :: nat
  ob_dep :: nat
  vmCount :: nat

text \<open>
  A Watcher; its \<open>id\<close> is its index in the store. Deps are referred to by their ids.
\<close>

record watcher =
  vm :: nat
  deep :: bool
  user :: bool
  lazy :: bool
  sync :: bool
  dirty :: bool
  active :: bool
  deps :: "nat list"
  newDeps :: "nat list"
  depIds :: "nat set"
  newDepIds :: "nat set"
  wvalue :: jsval

record component =
  vm_watcher :: "nat option"
  vm_watchers :: "nat list"
  isBeingDestroyed :: bool

record state =
  heap :: "nat \<Rightarrow> obj"
  observers :: "nat \<Rightarrow> observer"
  ob_uid :: nat
  subs :: "nat \<Rightarrow> nat list"
  dep_uid :: nat
  watchers :: "nat \<Rightarrow> watcher"
  watcher_uid :: nat
  vms :: "nat \<Rightarrow> component"
  target :: "nat option"
  targetStack :: "nat option list"
  shouldObserve :: bool
  queue :: "nat list"
  trace :: "event list"

datatype mutator_method = Push | Pop | Shift | Unshift | Splice | Sort | Reverse

text \<open>
  The environment: the build and configuration flags, and the code the sources call
  but do not contain. A watcher's evaluation function is given by the Deps whose
  \<open>depend()\<close> it triggers, in order, and its outcome (a value or an exception);
  a callback by its outcome; \<open>traverse\<close> by the Deps it touches; a user-defined
  property getter by the value it returns; the host's \<open>Array.prototype\<close> methods
  by their effect on the state and their result.
\<close>

record env =
  production :: bool
  async :: bool
  serverRendering :: bool
  hasProto :: bool
  getterFn :: "nat \<Rightarrow> state \<Rightarrow> nat list \<times> (exn + jsval)"
  cbFn :: "nat \<Rightarrow> jsval \<Rightarrow> jsval \<Rightarrow> state \<Rightarrow> exn option"
  traverseFn :: "jsval \<Rightarrow> state \<Rightarrow> nat list"
  userGet :: "nat \<Rightarrow> state \<Rightarrow> jsval"
  arrayProto :: "mutator_method \<Rightarrow> nat \<Rightarrow> jsval list \<Rightarrow> state \<Rightarrow> (exn + jsval) \<times> state"

definition emit :: "event \<Rightarrow> state \<Rightarrow> state" where
  "emit e s = s\<lparr>trace := trace s @ [e]\<rparr>"

text \<open>The events recorded between an earlier state and a later one.\<close>

definition new_events :: "state \<Rightarrow> state \<Rightarrow> event list" where
  "new_events s s' = drop (length (trace s)) (trace s')"

definition upd_watcher :: "nat \<Rightarrow> (watcher \<Rightarrow> watcher) \<Rightarrow> state \<Rightarrow> state" where
  "upd_watcher w f s = s\<lparr>watchers := (watchers s)(w := f (watchers s w))\<rparr>"

section \<open>Dep\<close>

text \<open>
  Modelled from the spec: \<open>remove\<close> of the utilities (not among the sources) takes
  one occurrence of the item out of the array, the first one.
\<close>

definition remove_item :: "nat list \<Rightarrow> nat \<Rightarrow> nat list" where
  "remove_item arr item = remove1 item arr"

definition addSub :: "nat \<Rightarrow> nat \<Rightarrow> state \<Rightarrow> state" where
  "addSub d sub s = s\<lparr>subs := (subs s)(d := subs s d @ [sub])\<rparr>"

definition removeSub :: "nat \<Rightarrow> nat \<Rightarrow> state \<Rightarrow> state" where
  "removeSub d sub s = s\<lparr>subs := (subs s)(d := remove_item (subs s d) sub)\<rparr>"

definition pushTarget :: "nat option \<Rightarrow> state \<Rightarrow> state" where
  "pushTarget t s = s\<lparr>targetStack := targetStack s @ [t], target := t\<rparr>"

definition popTarget :: "state \<Rightarrow> state" where
  "popTarget s =
     (let st = butlast (targetStack s)
      in s\<lparr>targetStack := st, target := (if st = [] then None else last st)\<rparr>)"

section \<open>Watcher: dependency collection\<close>

definition addDep :: "nat \<Rightarrow> nat \<Rightarrow> state \<Rightarrow> state" where
  "addDep w d s =
     (if d \<notin> newDepIds (watchers s w) then
        (let s1 = upd_watcher w
               (\<lambda>W. W\<lparr>newDepIds := insert d (newDepIds W), newDeps := newDeps W @ [d]\<rparr>) s
         in if d \<notin> depIds (watchers s w) then addSub d w s1 else s1)
      else s)"

definition depend :: "nat \<Rightarrow> state \<Rightarrow> state" where
  "depend d s =
     (case target s of None \<Rightarrow> s | Some w \<Rightarrow> addDep w d (emit (DependCall d w) s))"

text \<open>The loop \<open>while (i--)\<close> of \<open>cleanupDeps\<close>: the index runs from the last Dep down.\<close>

fun cleanupDeps_loop :: "nat \<Rightarrow> nat \<Rightarrow> state \<Rightarrow> state" where
  "cleanupDeps_loop w 0 s = s"
| "cleanupDeps_loop w (Suc i) s =
     (let dep = deps (watchers s w) ! i
      in cleanupDeps_loop w i
           (if dep \<notin> newDepIds (watchers s w) then removeSub dep w s else s))"

definition cleanupDeps :: "nat \<Rightarrow> state \<Rightarrow> state" where
  "cleanupDeps w s =
     (let s1 = cleanupDeps_loop w (length (deps (watchers s w))) s
      in upd_watcher w
           (\<lambda>W. W\<lparr>depIds := newDepIds W, newDepIds := {}, deps := newDeps W, newDeps := []\<rparr>) s1)"

text \<open>
  Modelled from the spec: \<open>traverse\<close> (not among the sources) touches every
  reachable property of the value; a value that is not an object has none.
\<close>

definition traverse :: "env \<Rightarrow> jsval \<Rightarrow> state \<Rightarrow> state" where
  "traverse E v s = (if isObject v then fold depend (traverseFn E v s) s else s)"

text \<open>
  \<open>get\<close>: the evaluation function runs with the watcher as active collector; the
  \<open>finally\<close> block runs on every path. The result is the value returned, or the
  exception that leaves \<open>get\<close>.
\<close>

definition get :: "env \<Rightarrow> nat \<Rightarrow> state \<Rightarrow> (exn + jsval) \<times> state" where
  "get E w s =
     (let s1 = emit (GetterCall w) (pushTarget (Some w) s);
          (touched, outcome) = getterFn E w s1;
          s2 = fold depend touched s1;
          (r, s3) = (case outcome of
                       Inr v \<Rightarrow> (Inr v, s2)
                     | Inl e \<Rightarrow> if user (watchers s2 w)
                                then (Inr JUndefined, emit (HandleError e w) s2)
                                else (Inl e, s2));
          val = (case outcome of Inr v \<Rightarrow> v | Inl e \<Rightarrow> JUndefined);
          s4 = (if deep (watchers s3 w) then traverse E val s3 else s3);
          s5 = popTarget s4;
          s6 = cleanupDeps w s5
      in (r, s6))"


section \<open>Watcher: life cycle\<close>

text \<open>
  The options of the constructor; \<open>None\<close> is a call without options. The evaluation
  function and the callback are those the environment gives for the new id.
\<close>

record woptions =
  o_deep :: bool
  o_user :: bool
  o_lazy :: bool
  o_sync :: bool

definition Watcher_new ::
  "env \<Rightarrow> nat \<Rightarrow> woptions option \<Rightarrow> bool \<Rightarrow> state \<Rightarrow> (exn + nat) \<times> state" where
  "Watcher_new E v options isRenderWatcher s =
     (let w = Suc (watcher_uid s);
          c = vms s v;
          c1 = (if isRenderWatcher then c\<lparr>vm_watcher := Some w\<rparr> else c);
          c2 = c1\<lparr>vm_watchers := vm_watchers c1 @ [w]\<rparr>;
          lz = (case options of Some opts \<Rightarrow> o_lazy opts | None \<Rightarrow> False);
          W = \<lparr>vm = v,
               deep = (case options of Some opts \<Rightarrow> o_deep opts | None \<Rightarrow> False),
               user = (case options of Some opts \<Rightarrow> o_user opts | None \<Rightarrow> False),
               lazy = lz,
               sync = (case options of Some opts \<Rightarrow> o_sync opts | None \<Rightarrow> False),
               dirty = lz, active = True, deps = [], newDeps = [],
               depIds = {}, newDepIds = {}, wvalue = JUndefined\<rparr>;
          s1 = s\<lparr>vms := (vms s)(v := c2), watcher_uid := w,
                 watchers := (watchers s)(w := W)\<rparr>
      in if lz then (Inr w, upd_watcher w (\<lambda>W. W\<lparr>wvalue := JUndefined\<rparr>) s1)
         else (case get E w s1 of
                 (Inl e, s2) \<Rightarrow> (Inl e, s2)
               | (Inr val, s2) \<Rightarrow> (Inr w, upd_watcher w (\<lambda>W. W\<lparr>wvalue := val\<rparr>) s2)))"

text \<open>
  \<open>run\<close>: the scheduler's job interface. A user watcher's callback goes through
  \<open>invokeWithErrorHandling\<close>, which hands an exception to the error handler; any
  other watcher's callback exception leaves \<open>run\<close>.
\<close>

definition run :: "env \<Rightarrow> nat \<Rightarrow> state \<Rightarrow> (exn + unit) \<times> state" where
  "run E w s =
     (if active (watchers s w) then
        (case get E w s of
           (Inl e, s1) \<Rightarrow> (Inl e, s1)
         | (Inr val, s1) \<Rightarrow>
             if \<not> strict_eq val (wvalue (watchers s1 w)) \<or> isObject val \<or> deep (watchers s1 w)
             then
               (let oldValue = wvalue (watchers s1 w);
                    s2 = upd_watcher w (\<lambda>W. W\<lparr>wvalue := val\<rparr>) s1;
                    s3 = emit (CallbackCall w val oldValue (wvalue (watchers s2 w))) s2
                in case cbFn E w val oldValue s3 of
                     None \<Rightarrow> (Inr (), s3)
                   | Some e \<Rightarrow> if user (watchers s3 w)
                               then (Inr (), emit (HandleError e w) s3)
                               else (Inl e, s3))
             else (Inr (), s1))
      else (Inr (), s))"

text \<open>
  Modelled from the spec: \<open>queueWatcher\<close> of the scheduler (not among the sources),
  outside a flush: the watcher is inserted unless its id is already pending.
\<close>

definition queueWatcher :: "nat \<Rightarrow> state \<Rightarrow> state" where
  "queueWatcher w s = (if w \<in> set (queue s) then s else s\<lparr>queue := queue s @ [w]\<rparr>)"

definition update :: "env \<Rightarrow> nat \<Rightarrow> state \<Rightarrow> (exn + unit) \<times> state" where
  "update E w s =
     (let s0 = emit (UpdateCall w) s
      in if lazy (watchers s0 w) then (Inr (), upd_watcher w (\<lambda>W. W\<lparr>dirty := True\<rparr>) s0)
         else if sync (watchers s0 w) then run E w s0
         else (Inr (), queueWatcher w s0))"

definition evaluate :: "env \<Rightarrow> nat \<Rightarrow> state \<Rightarrow> (exn + unit) \<times> state" where
  "evaluate E w s =
     (case get E w s of
        (Inl e, s1) \<Rightarrow> (Inl e, s1)
      | (Inr val, s1) \<Rightarrow> (Inr (), upd_watcher w (\<lambda>W. W\<lparr>wvalue := val, dirty := False\<rparr>) s1))"

text \<open>The loop \<open>while (i--)\<close> of \<open>teardown\<close>.\<close>

fun teardown_loop :: "nat \<Rightarrow> nat \<Rightarrow> state \<Rightarrow> state" where
  "teardown_loop w 0 s = s"
| "teardown_loop w (Suc i) s = teardown_loop w i (removeSub (deps (watchers s w) ! i) w s)"

definition teardown :: "nat \<Rightarrow> state \<Rightarrow> state" where
  "teardown w s =
     (if active (watchers s w) then
        (let v = vm (watchers s w);
             s1 = (if \<not> isBeingDestroyed (vms s v)
                   then s\<lparr>vms := (vms s)(v := (vms s v)\<lparr>vm_watchers :=
                                           remove_item (vm_watchers (vms s v)) w\<rparr>)\<rparr>
                   else s);
             s2 = teardown_loop w (length (deps (watchers s1 w))) s1
         in upd_watcher w (\<lambda>W. W\<lparr>active := False\<rparr>) s2)
      else s)"

section \<open>Dep: notification\<close>

text \<open>
  The loop of \<open>notify\<close> over the copy of the subscriber list; an exception that
  leaves an \<open>update\<close> leaves the loop.
\<close>

fun notify_loop :: "env \<Rightarrow> nat list \<Rightarrow> state \<Rightarrow> (exn + unit) \<times> state" where
  "notify_loop E [] s = (Inr (), s)"
| "notify_loop E (sub # rest) s =
     (case update E sub s of
        (Inl e, s1) \<Rightarrow> (Inl e, s1)
      | (Inr u, s1) \<Rightarrow> notify_loop E rest s1)"

text \<open>
  \<open>subs.sort((a, b) => a.id - b.id)\<close>: a watcher is its id, so the copy is sorted
  as a list of numbers.
\<close>

definition notify_subs :: "env \<Rightarrow> nat \<Rightarrow> state \<Rightarrow> nat list" where
  "notify_subs E d s =
     (let copy = subs s d
      in if \<not> production E \<and> \<not> async E then sort copy else copy)"

definition notify :: "env \<Rightarrow> nat \<Rightarrow> state \<Rightarrow> (exn + unit) \<times> state" where
  "notify E d s = notify_loop E (notify_subs E d s) s"

section \<open>Observer\<close>

definition upd_obj :: "nat \<Rightarrow> (obj \<Rightarrow> obj) \<Rightarrow> state \<Rightarrow> state" where
  "upd_obj a f s = s\<lparr>heap := (heap s)(a := f (heap s a))\<rparr>"

definition lookup_prop :: "obj \<Rightarrow> key \<Rightarrow> pdesc option" where
  "lookup_prop obj k = map_of (props obj) k"

text \<open>
  \<open>Object.defineProperty\<close> and the creation of a property by assignment: an
  existing own key keeps its place, a new one goes last.
\<close>

definition store_prop :: "key \<Rightarrow> pdesc \<Rightarrow> obj \<Rightarrow> obj" where
  "store_prop k p obj =
     (if map_of (props obj) k = None then obj\<lparr>props := props obj @ [(k, p)]\<rparr>
      else obj\<lparr>props := map (\<lambda>(k', p'). if k' = k then (k', p) else (k', p')) (props obj)\<rparr>)"

text \<open>\<open>Object.keys\<close>: the own enumerable keys.\<close>

definition own_keys :: "obj \<Rightarrow> key list" where
  "own_keys obj = map fst (filter (\<lambda>(k, p). enumerable p) (props obj))"

text \<open>\<open>new Dep()\<close>: the id is the counter, which is then incremented.\<close>

definition Dep_new :: "state \<Rightarrow> nat \<times> state" where
  "Dep_new s = (dep_uid s, s\<lparr>dep_uid := Suc (dep_uid s), subs := (subs s)(dep_uid s := [])\<rparr>)"

text \<open>
  Both ways of augmenting an array put the intercepting methods in front of the
  host's.
\<close>

definition protoAugment :: "nat \<Rightarrow> state \<Rightarrow> state" where
  "protoAugment a s = upd_obj a (\<lambda>obj. obj\<lparr>intercepted := True\<rparr>) s"

definition copyAugment :: "nat \<Rightarrow> state \<Rightarrow> state" where
  "copyAugment a s = upd_obj a (\<lambda>obj. obj\<lparr>intercepted := True\<rparr>) s"

text \<open>The getter and the setter of a property descriptor, when they are user functions.\<close>

definition getter_of :: "property \<Rightarrow> nat option" where
  "getter_of q = (case q of Accessor g st \<Rightarrow> g | _ \<Rightarrow> None)"

definition setter_of :: "property \<Rightarrow> nat option" where
  "setter_of q = (case q of Accessor g st \<Rightarrow> st | _ \<Rightarrow> None)"

definition is_reactive :: "property \<Rightarrow> bool" where
  "is_reactive q = (case q of Reactive d v g st c sh cu \<Rightarrow> True | _ \<Rightarrow> False)"

text \<open>
  \<open>obj[key]\<close> for an own data or user accessor property (a missing property and
  an accessor without getter read as undefined).
\<close>

definition read_own :: "env \<Rightarrow> state \<Rightarrow> nat \<Rightarrow> key \<Rightarrow> jsval" where
  "read_own E s a k =
     (case lookup_prop (heap s a) k of
        None \<Rightarrow> JUndefined
      | Some p \<Rightarrow> (case slot p of
                     Data v \<Rightarrow> v
                   | Accessor g st \<Rightarrow> (case g of Some f \<Rightarrow> userGet E f s | None \<Rightarrow> JUndefined)
                   | Reactive d v g st c sh cu \<Rightarrow>
                       (case g of Some f \<Rightarrow> userGet E f s | None \<Rightarrow> v)))"

text \<open>
  The part of the constructor of \<open>Observer\<close> before its loops: \<open>this.value\<close>,
  \<open>this.dep = new Dep()\<close>, \<open>this.vmCount = 0\<close> and \<open>def(value, '__ob__', this)\<close>.
  The new Observer is identified by a counter of its own.
\<close>

definition Observer_init :: "nat \<Rightarrow> state \<Rightarrow> nat \<times> state" where
  "Observer_init a s =
     (let (d, s1) = Dep_new s;
          i = ob_uid s1;
          s2 = s1\<lparr>ob_uid := Suc i,
                  observers := (observers s1)(i := \<lparr>ob_value = a, ob_dep = d, vmCount = 0\<rparr>)\<rparr>
      in (i, upd_obj a (\<lambda>obj. obj\<lparr>ob := Some i\<rparr>) s2))"

text \<open>\<open>if (asRootData && ob) ob.vmCount++\<close>.\<close>

definition count_root :: "bool \<Rightarrow> nat option \<Rightarrow> state \<Rightarrow> state" where
  "count_root asRootData obr s =
     (case obr of
        Some i \<Rightarrow>
          if asRootData
          then s\<lparr>observers := (observers s)
                 (i := (observers s i)\<lparr>vmCount := Suc (vmCount (observers s i))\<rparr>)\<rparr>
          else s
      | None \<Rightarrow> s)"

text \<open>
  The first lines of \<open>defineReactive\<close>: the accessors found on the property, and
  \<open>val\<close> (\<open>None\<close> for the value is the call with two arguments, which reads the
  property unless it has a getter and no setter).
\<close>

definition found_getter :: "state \<Rightarrow> nat \<Rightarrow> key \<Rightarrow> nat option" where
  "found_getter s a k =
     (case lookup_prop (heap s a) k of Some p \<Rightarrow> getter_of (slot p) | None \<Rightarrow> None)"

definition found_setter :: "state \<Rightarrow> nat \<Rightarrow> key \<Rightarrow> nat option" where
  "found_setter s a k =
     (case lookup_prop (heap s a) k of Some p \<Rightarrow> setter_of (slot p) | None \<Rightarrow> None)"

definition initial_val :: "env \<Rightarrow> state \<Rightarrow> nat \<Rightarrow> key \<Rightarrow> jsval option \<Rightarrow> jsval" where
  "initial_val E s a k val =
     (case val of
        Some v \<Rightarrow> v
      | None \<Rightarrow> if found_getter s a k = None \<or> found_setter s a k \<noteq> None
                then read_own E s a k else JUndefined)"

text \<open>
  \<open>observe\<close>, the constructor of \<open>Observer\<close>, \<open>walk\<close>, \<open>observeArray\<close> and
  \<open>defineReactive\<close> call each other along the object graph. The first argument
  bounds the nesting of Observer constructors; the result is \<open>None\<close> when the bound
  is reached, and when \<open>defineReactive\<close> meets a field that is already reactive
  (its accessors would then be engine closures, which the property model does not
  nest).
\<close>

function (sequential)
      observe :: "nat \<Rightarrow> env \<Rightarrow> jsval \<Rightarrow> bool \<Rightarrow> state \<Rightarrow> (nat option \<times> state) option"
  and Observer_new :: "nat \<Rightarrow> env \<Rightarrow> nat \<Rightarrow> state \<Rightarrow> (nat \<times> state) option"
  and walk :: "nat \<Rightarrow> env \<Rightarrow> nat \<Rightarrow> key list \<Rightarrow> state \<Rightarrow> state option"
  and observeArray :: "nat \<Rightarrow> env \<Rightarrow> jsval list \<Rightarrow> state \<Rightarrow> state option"
  and defineReactive ::
    "nat \<Rightarrow> env \<Rightarrow> nat \<Rightarrow> key \<Rightarrow> jsval option \<Rightarrow> bool \<Rightarrow> bool \<Rightarrow> state \<Rightarrow> state option"
where
  "observe n E v asRootData s =
     (case v of
        JRef a \<Rightarrow>
          if kind (heap s a) = VNodeObject then Some (None, s)
          else
            (case ob (heap s a) of
               Some i \<Rightarrow> Some (Some i, count_root asRootData (Some i) s)
             | None \<Rightarrow>
                 if shouldObserve s \<and> \<not> serverRendering E \<and>
                    (kind (heap s a) = ArrayObject \<or> kind (heap s a) = PlainObject) \<and>
                    extensible (heap s a) \<and> \<not> isVue (heap s a)
                 then (case n of
                         0 \<Rightarrow> None
                       | Suc m \<Rightarrow> (case Observer_new m E a s of
                                    None \<Rightarrow> None
                                  | Some (i, s1) \<Rightarrow>
                                      Some (Some i, count_root asRootData (Some i) s1)))
                 else Some (None, count_root asRootData None s))
      | _ \<Rightarrow> Some (None, s))"
| "Observer_new m E a s =
     (case Observer_init a s of
        (i, s1) \<Rightarrow>
          if kind (heap s1 a) = ArrayObject
          then (case observeArray m E (elems (heap s1 a))
                       (if hasProto E then protoAugment a s1 else copyAugment a s1) of
                  None \<Rightarrow> None
                | Some s2 \<Rightarrow> Some (i, s2))
          else (case walk m E a (own_keys (heap s1 a)) s1 of
                  None \<Rightarrow> None
                | Some s2 \<Rightarrow> Some (i, s2)))"
| "walk m E a [] s = Some s"
| "walk m E a (k # keys) s =
     (case defineReactive m E a k None False False s of
        None \<Rightarrow> None
      | Some s1 \<Rightarrow> walk m E a keys s1)"
| "observeArray m E [] s = Some s"
| "observeArray m E (item # items) s =
     (case observe m E item False s of
        None \<Rightarrow> None
      | Some (r, s1) \<Rightarrow> observeArray m E items s1)"
| "defineReactive m E a k val customSetter shallow s =
     (case Dep_new s of
        (d, s1) \<Rightarrow>
          if (case lookup_prop (heap s1 a) k of Some p \<Rightarrow> \<not> configurable p | None \<Rightarrow> False)
          then Some s1
          else if (case lookup_prop (heap s1 a) k of
                     Some p \<Rightarrow> is_reactive (slot p) | None \<Rightarrow> False)
          then None
          else
            (case (if shallow then Some (None, s1)
                   else observe m E (initial_val E s1 a k val) False s1) of
               None \<Rightarrow> None
             | Some (childOb, s2) \<Rightarrow>
                 Some (upd_obj a (store_prop k
                         \<lparr>configurable = True, enumerable = True, writable = True,
                          slot = Reactive d (initial_val E s1 a k val) (found_getter s1 a k)
                                   (found_setter s1 a k) childOb shallow customSetter\<rparr>)
                       s2)))"
  by pat_completeness auto

text \<open>
  The bound decreases at each Observer constructor; below it the constructor stands
  above its loops, and a loop above the calls it makes on one element.
\<close>

termination
  by (relation "inv_image (less_than <*lex*> less_than <*lex*> less_than)
        (\<lambda>x. case x of
           Inl (Inl (n, E, v, r, s)) \<Rightarrow> (n, 0, 0)
         | Inl (Inr (m, E, a, s)) \<Rightarrow> (m, 2, 0)
         | Inr (Inl (m, E, a, keys, s)) \<Rightarrow> (m, 1, length keys)
         | Inr (Inr (Inl (m, E, items, s))) \<Rightarrow> (m, 1, length items)
         | Inr (Inr (Inr (m, E, a, k, val, c, sh, s))) \<Rightarrow> (m, 0, 1))")
    auto

declare observe.simps [simp del] Observer_new.simps [simp del] defineReactive.simps [simp del]

section \<open>Reactive properties: the setter\<close>

text \<open>
  \<open>reactiveSetter\<close> of the reactive property \<open>k\<close> of object \<open>a\<close>. A user-defined
  setter is recorded as an event. The result is \<open>None\<close> when the property is not
  reactive, or when \<open>observe\<close> gives none.
\<close>

definition reactiveSetter ::
  "nat \<Rightarrow> env \<Rightarrow> nat \<Rightarrow> key \<Rightarrow> jsval \<Rightarrow> state \<Rightarrow> ((exn + unit) \<times> state) option" where
  "reactiveSetter n E a k newVal s =
     (case lookup_prop (heap s a) k of
        None \<Rightarrow> None
      | Some p \<Rightarrow>
          (case slot p of
             Reactive d val getter setter childOb shallow customSetter \<Rightarrow>
               (let value = (case getter of Some g \<Rightarrow> userGet E g s | None \<Rightarrow> val)
                in if strict_eq newVal value \<or>
                      (\<not> strict_eq newVal newVal \<and> \<not> strict_eq value value)
                   then Some (Inr (), s)
                   else
                     (let s1 = (if \<not> production E \<and> customSetter
                                then emit CustomSetterCall s else s)
                      in if getter \<noteq> None \<and> setter = None then Some (Inr (), s1)
                         else
                           (let s2 = (case setter of
                                        Some f \<Rightarrow> emit (UserSetterCall f newVal) s1
                                      | None \<Rightarrow> upd_obj a (store_prop k
                                          (p\<lparr>slot := Reactive d newVal getter setter childOb
                                                       shallow customSetter\<rparr>)) s1)
                            in case (if shallow then Some (None, s2)
                                     else observe n E newVal False s2) of
                                 None \<Rightarrow> None
                               | Some (childOb1, s3) \<Rightarrow>
                                   (let val1 = (case setter of Some f \<Rightarrow> val | None \<Rightarrow> newVal);
                                        s4 = upd_obj a (store_prop k
                                          (p\<lparr>slot := Reactive d val1 getter setter childOb1
                                                       shallow customSetter\<rparr>)) s3
                                    in Some (notify E d s4)))))
           | _ \<Rightarrow> None))"

text \<open>
  The assignment \<open>target[key] = val\<close> in strict code: an own data property is
  written when it is writable, a user accessor's setter is called, a reactive
  property's setter is \<open>reactiveSetter\<close>, and a key that is not an own property is
  created as a data property when the object is extensible; the other cases throw.
\<close>

definition assign ::
  "nat \<Rightarrow> env \<Rightarrow> nat \<Rightarrow> key \<Rightarrow> jsval \<Rightarrow> state \<Rightarrow> ((exn + unit) \<times> state) option" where
  "assign n E a k v s =
     (case lookup_prop (heap s a) k of
        None \<Rightarrow>
          if extensible (heap s a)
          then Some (Inr (), upd_obj a (store_prop k
                 \<lparr>configurable = True, enumerable = True, writable = True, slot = Data v\<rparr>) s)
          else Some (Inl TypeError, s)
      | Some p \<Rightarrow>
          (case slot p of
             Data old \<Rightarrow>
               if writable p then Some (Inr (), upd_obj a (store_prop k (p\<lparr>slot := Data v\<rparr>)) s)
               else Some (Inl TypeError, s)
           | Accessor g st \<Rightarrow>
               (case st of
                  Some f \<Rightarrow> Some (Inr (), emit (UserSetterCall f v) s)
                | None \<Rightarrow> Some (Inl TypeError, s))
           | Reactive d val g st c sh cu \<Rightarrow> reactiveSetter n E a k v s))"

section \<open>The array interceptor\<close>

text \<open>
  \<open>mutator\<close> for one of the seven patched methods, called on array \<open>a\<close>. An array
  without \<open>__ob__\<close> makes \<open>ob.observeArray\<close> or \<open>ob.dep\<close> throw.
\<close>

definition inserted_of :: "mutator_method \<Rightarrow> jsval list \<Rightarrow> jsval list option" where
  "inserted_of m args =
     (case m of Push \<Rightarrow> Some args | Unshift \<Rightarrow> Some args | Splice \<Rightarrow> Some (drop 2 args)
      | _ \<Rightarrow> None)"

definition mutator ::
  "nat \<Rightarrow> env \<Rightarrow> mutator_method \<Rightarrow> nat \<Rightarrow> jsval list \<Rightarrow> state
     \<Rightarrow> ((exn + jsval) \<times> state) option" where
  "mutator n E m a args s =
     (case arrayProto E m a args s of
        (Inl e, s1) \<Rightarrow> Some (Inl e, s1)
      | (Inr result, s1) \<Rightarrow>
          (case ob (heap s1 a) of
             None \<Rightarrow> Some (Inl TypeError, s1)
           | Some i \<Rightarrow>
               (case (case inserted_of m args of
                        Some inserted \<Rightarrow> observeArray n E inserted s1
                      | None \<Rightarrow> Some s1) of
                  None \<Rightarrow> None
                | Some s2 \<Rightarrow>
                    (case notify E (ob_dep (observers s2 i)) s2 of
                       (Inl e, s3) \<Rightarrow> Some (Inl e, s3)
                     | (Inr u, s3) \<Rightarrow> Some (Inr result, s3)))))"

section \<open>set\<close>

text \<open>
  \<open>isValidArrayIndex\<close> of the utilities on the keys of the model: a number that is
  not negative (names are taken not to be numerals).
\<close>

definition isValidArrayIndex :: "key \<Rightarrow> bool" where
  "isValidArrayIndex k = (case k of KNum i \<Rightarrow> 0 \<le> i | KStr nm \<Rightarrow> False)"

definition key_value :: "key \<Rightarrow> jsval" where
  "key_value k = (case k of KNum i \<Rightarrow> JNum i | KStr nm \<Rightarrow> JStr nm)"

text \<open>\<open>key in target\<close>: an own property, or a key of the prototype chain.\<close>

definition key_in :: "obj \<Rightarrow> key \<Rightarrow> bool" where
  "key_in obj k = (lookup_prop obj k \<noteq> None \<or> k \<in> set (inherited obj))"

text \<open>The keys of \<open>Object.prototype\<close>.\<close>

definition Object_prototype :: "key list" where
  "Object_prototype = map KStr [''constructor'', ''__defineGetter__'', ''__defineSetter__'',
     ''hasOwnProperty'', ''__lookupGetter__'', ''__lookupSetter__'', ''isPrototypeOf'',
     ''propertyIsEnumerable'', ''toString'', ''valueOf'', ''__proto__'', ''toLocaleString'']"

definition root_warning :: string where
  "root_warning = ''Avoid adding reactive properties to a Vue instance or its root $data at runtime - declare it upfront in the data option.''"

definition target_warning :: string where
  "target_warning = ''Cannot set reactive property on undefined, null, or primitive value''"

text \<open>\<open>target.splice(key, 1, val)\<close>: the intercepted method when the array has it.\<close>

definition call_splice ::
  "nat \<Rightarrow> env \<Rightarrow> nat \<Rightarrow> jsval list \<Rightarrow> state \<Rightarrow> ((exn + jsval) \<times> state) option" where
  "call_splice n E a args s =
     (if intercepted (heap s a) then mutator n E Splice a args s
      else Some (arrayProto E Splice a args s))"

text \<open>
  \<open>set\<close>. A target that is not an object is warned about, and \<open>key in target\<close>
  then throws.
\<close>

definition set_fn ::
  "nat \<Rightarrow> env \<Rightarrow> jsval \<Rightarrow> key \<Rightarrow> jsval \<Rightarrow> state \<Rightarrow> ((exn + jsval) \<times> state) option" where
  "set_fn n E target_v k val s =
     (case target_v of
        JRef a \<Rightarrow>
          if kind (heap s a) = ArrayObject \<and> isValidArrayIndex k then
            (let idx = (case k of KNum i \<Rightarrow> nat i | KStr nm \<Rightarrow> 0);
                 s1 = upd_obj a (\<lambda>obj. obj\<lparr>elems := elems obj @
                        replicate (idx - length (elems obj)) JUndefined\<rparr>) s
             in case call_splice n E a [key_value k, JNum 1, val] s1 of
                  None \<Rightarrow> None
                | Some (Inl e, s2) \<Rightarrow> Some (Inl e, s2)
                | Some (Inr r, s2) \<Rightarrow> Some (Inr val, s2))
          else if key_in (heap s a) k \<and> k \<notin> set Object_prototype then
            (case assign n E a k val s of
               None \<Rightarrow> None
             | Some (Inl e, s1) \<Rightarrow> Some (Inl e, s1)
             | Some (Inr u, s1) \<Rightarrow> Some (Inr val, s1))
          else
            (let obr = ob (heap s a)
             in if isVue (heap s a) \<or>
                   (case obr of Some i \<Rightarrow> vmCount (observers s i) \<noteq> 0 | None \<Rightarrow> False)
                then Some (Inr val, if \<not> production E then emit (Warn root_warning) s else s)
                else
                  (case obr of
                     None \<Rightarrow>
                       (case assign n E a k val s of
                          None \<Rightarrow> None
                        | Some (Inl e, s1) \<Rightarrow> Some (Inl e, s1)
                        | Some (Inr u, s1) \<Rightarrow> Some (Inr val, s1))
                   | Some i \<Rightarrow>
                       (case defineReactive n E (ob_value (observers s i)) k (Some val)
                               False False s of
                          None \<Rightarrow> None
                        | Some s1 \<Rightarrow>
                            (case notify E (ob_dep (observers s1 i)) s1 of
                               (Inl e, s2) \<Rightarrow> Some (Inl e, s2)
                             | (Inr u, s2) \<Rightarrow> Some (Inr val, s2)))))
      | _ \<Rightarrow> Some (Inl TypeError,
                 if \<not> production E then emit (Warn target_warning) s else s))"

section \<open>Predicates of the statements\<close>

text \<open>
  Between two evaluations the in-progress generation of a watcher is empty and the
  current one lists each Dep once.
\<close>

definition settled :: "state \<Rightarrow> nat \<Rightarrow> bool" where
  "settled s w =
     (newDeps (watchers s w) = [] \<and> newDepIds (watchers s w) = {} \<and>
      distinct (deps (watchers s w)) \<and> set (deps (watchers s w)) = depIds (watchers s w))"

text \<open>
  The watcher is in the subscriber list of the Deps of its current set, once each,
  and in no other subscriber list.
\<close>

definition subscribed_exactly :: "state \<Rightarrow> nat \<Rightarrow> bool" where
  "subscribed_exactly s w =
     (\<forall>d. count_list (subs s d) w = (if d \<in> depIds (watchers s w) then 1 else 0))"

text \<open>The state in which \<open>get\<close> runs the evaluation function of watcher \<open>w\<close>.\<close>

definition entered :: "nat \<Rightarrow> state \<Rightarrow> state" where
  "entered w s = emit (GetterCall w) (pushTarget (Some w) s)"


text \<open>
  The watchers on which \<open>update\<close> was called, and those whose evaluation
  function was called, in a list of events.
\<close>

fun update_calls :: "event list \<Rightarrow> nat list" where
  "update_calls [] = []"
| "update_calls (UpdateCall w # es) = w # update_calls es"
| "update_calls (e # es) = update_calls es"

fun getter_calls :: "event list \<Rightarrow> nat list" where
  "getter_calls [] = []"
| "getter_calls (GetterCall w # es) = w # getter_calls es"
| "getter_calls (e # es) = getter_calls es"


text \<open>
  What the observing functions leave alone: the flag \<open>shouldObserve\<close>, the trace,
  and of every object its kind, its elements, its extensibility, its \<open>_isVue\<close> flag
  and the Observer it carries, if it carries one.
\<close>

definition ob_kept :: "state \<Rightarrow> state \<Rightarrow> bool" where
  "ob_kept s s' =
     (shouldObserve s' = shouldObserve s \<and> trace s' = trace s \<and>
      (\<forall>b. kind (heap s' b) = kind (heap s b) \<and> elems (heap s' b) = elems (heap s b) \<and>
           extensible (heap s' b) = extensible (heap s b) \<and>
           isVue (heap s' b) = isVue (heap s b) \<and>
           (\<forall>j. ob (heap s b) = Some j \<longrightarrow> ob (heap s' b) = Some j)))"

text \<open>The condition under which \<open>observe\<close> wraps an object that has no Observer.\<close>

definition observable :: "env \<Rightarrow> state \<Rightarrow> nat \<Rightarrow> bool" where
  "observable E s a =
     (shouldObserve s \<and> \<not> serverRendering E \<and>
      (kind (heap s a) = ArrayObject \<or> kind (heap s a) = PlainObject) \<and>
      extensible (heap s a) \<and> \<not> isVue (heap s a))"

section \<open>Example states\<close>

text \<open>
  The state of the modules when they are loaded, and an environment with one
  evaluation function, \<open>flag ? x : y\<close>: Dep 0 belongs to \<open>flag\<close> (kept as the
  element of object 0), Dep 1 to \<open>x\<close> and Dep 2 to \<open>y\<close>.
\<close>

definition empty_obj :: obj where
  "empty_obj = \<lparr>kind = PlainObject, props = [], elems = [], ob = None, extensible = True,
     isVue = False, inherited = [], intercepted = False\<rparr>"

definition blank_watcher :: watcher where
  "blank_watcher = \<lparr>vm = 0, deep = False, user = False, lazy = False, sync = False,
     dirty = False, active = False, deps = [], newDeps = [], depIds = {}, newDepIds = {},
     wvalue = JUndefined\<rparr>"

definition init_state :: state where
  "init_state = \<lparr>heap = (\<lambda>a. empty_obj),
     observers = (\<lambda>i. \<lparr>ob_value = 0, ob_dep = 0, vmCount = 0\<rparr>), ob_uid = 0,
     subs = (\<lambda>d. []), dep_uid = 0, watchers = (\<lambda>w. blank_watcher), watcher_uid = 0,
     vms = (\<lambda>v. \<lparr>vm_watcher = None, vm_watchers = [], isBeingDestroyed = False\<rparr>),
     target = None, targetStack = [], shouldObserve = True, queue = [], trace = []\<rparr>"

definition flag_getter :: "nat \<Rightarrow> state \<Rightarrow> nat list \<times> (exn + jsval)" where
  "flag_getter w s =
     (if elems (heap s 0) = [JBool True] then ([0, 1], Inr (JNum 1)) else ([0, 2], Inr (JNum 2)))"

definition example_env :: env where
  "example_env = \<lparr>production = False, async = True, serverRendering = False, hasProto = True,
     getterFn = flag_getter, cbFn = (\<lambda>w v old s. None), traverseFn = (\<lambda>v s. []),
     userGet = (\<lambda>g s. JUndefined), arrayProto = (\<lambda>m a args s. (Inr JUndefined, s))\<rparr>"

definition flag_state :: state where
  "flag_state = init_state\<lparr>heap := (heap init_state)(0 := empty_obj\<lparr>elems := [JBool True]\<rparr>)\<rparr>"

text \<open>
  A watcher (id 1) created over that function; the same state after \<open>flag\<close> became
  false; and the state after the watcher's teardown.
\<close>

definition watched_state :: state where
  "watched_state = snd (Watcher_new example_env 0 None False flag_state)"

definition flipped_state :: state where
  "flipped_state = watched_state\<lparr>heap := (heap watched_state)(0 := empty_obj\<lparr>elems := [JBool False]\<rparr>)\<rparr>"

definition torn_state :: state where
  "torn_state = teardown 1 watched_state"





text \<open>A lazy watcher (id 1) created over the function of the example.\<close>

definition lazy_opts :: woptions where
  "lazy_opts = \<lparr>o_deep = False, o_user = False, o_lazy = True, o_sync = False\<rparr>"

definition lazy_state :: state where
  "lazy_state = snd (Watcher_new example_env 0 (Some lazy_opts) False flag_state)"


text \<open>The lazy watcher evaluated once and then torn down.\<close>

definition lazy_torn_state :: state where
  "lazy_torn_state = teardown 1 (snd (evaluate example_env 1 lazy_state))"

text \<open>
  A second watcher (id 2, not lazy) created after the lazy one, which is evaluated
  afterwards: Dep 0 has the subscribers 2, 1 in this order. Two environments with
  \<open>config.async\<close> off, a development build and a production build.
\<close>

definition second_state :: state where
  "second_state = snd (Watcher_new example_env 0 None False lazy_state)"

definition unordered_state :: state where
  "unordered_state = snd (evaluate example_env 1 second_state)"

definition dev_sync_env :: env where
  "dev_sync_env = example_env\<lparr>async := False\<rparr>"

definition prod_sync_env :: env where
  "prod_sync_env = example_env\<lparr>production := True, async := False\<rparr>"

text \<open>Two synchronous watchers over the function of the example, after \<open>flag\<close> became false.\<close>

definition sync_opts :: woptions where
  "sync_opts = \<lparr>o_deep = False, o_user = False, o_lazy = False, o_sync = True\<rparr>"

definition sync_state :: state where
  "sync_state =
     (let s = snd (Watcher_new example_env 0 (Some sync_opts) False
                (snd (Watcher_new example_env 0 (Some sync_opts) False flag_state)))
      in s\<lparr>heap := (heap s)(0 := empty_obj\<lparr>elems := [JBool False]\<rparr>)\<rparr>)"


text \<open>
  A data object \<open>{a: 1, list: [child]}\<close> (object 0, the array is object 1 and
  \<open>child = {}\<close> is object 2), unobserved, and the same after
  \<open>observe(data, true)\<close>, which makes it the root data of one owner. Object 3 is
  another plain object \<open>{}\<close>.
\<close>

definition data_prop :: "jsval \<Rightarrow> pdesc" where
  "data_prop v = \<lparr>configurable = True, enumerable = True, writable = True, slot = Data v\<rparr>"

definition data_state :: state where
  "data_state = init_state\<lparr>heap := (heap init_state)
     (0 := empty_obj\<lparr>props := [(KStr ''a'', data_prop (JNum 1)),
                                (KStr ''list'', data_prop (JRef 1))]\<rparr>,
      1 := empty_obj\<lparr>kind := ArrayObject, elems := [JRef 2]\<rparr>)\<rparr>"

definition root_state :: state where
  "root_state =
     (case observe 3 example_env (JRef 0) True data_state of
        Some (r, s) \<Rightarrow> s | None \<Rightarrow> data_state)"


text \<open>
  Object 3 with a field \<open>c\<close> that has a user getter (function 7) and no setter,
  made reactive.
\<close>

definition accessor_state :: state where
  "accessor_state = init_state\<lparr>heap := (heap init_state)
     (3 := empty_obj\<lparr>props := [(KStr ''c'',
        \<lparr>configurable = True, enumerable = True, writable = False,
         slot = Accessor (Some 7) None\<rparr>)]\<rparr>)\<rparr>"

definition readonly_state :: state where
  "readonly_state =
     (case defineReactive 0 example_env 3 (KStr ''c'') None False False accessor_state of
        Some s \<Rightarrow> s | None \<Rightarrow> accessor_state)"





section \<open>Dependency collection: what each step changes\<close>

lemma emit_simps [simp]:
  "trace (emit e s) = trace s @ [e]" "target (emit e s) = target s"
  "targetStack (emit e s) = targetStack s" "subs (emit e s) = subs s"
  "watchers (emit e s) = watchers s" "heap (emit e s) = heap s"
  "observers (emit e s) = observers s" "vms (emit e s) = vms s" "queue (emit e s) = queue s"
  "dep_uid (emit e s) = dep_uid s" "ob_uid (emit e s) = ob_uid s"
  "watcher_uid (emit e s) = watcher_uid s" "shouldObserve (emit e s) = shouldObserve s"
  by (simp_all add: emit_def)

lemma addDep_frame [simp]:
  "trace (addDep w d s) = trace s" "target (addDep w d s) = target s"
  "targetStack (addDep w d s) = targetStack s" "heap (addDep w d s) = heap s"
  "observers (addDep w d s) = observers s" "vms (addDep w d s) = vms s"
  "queue (addDep w d s) = queue s" "dep_uid (addDep w d s) = dep_uid s"
  "ob_uid (addDep w d s) = ob_uid s" "watcher_uid (addDep w d s) = watcher_uid s"
  "shouldObserve (addDep w d s) = shouldObserve s"
  by (simp_all add: addDep_def upd_watcher_def addSub_def Let_def)

lemma addDep_other: "w' \<noteq> w \<Longrightarrow> watchers (addDep w d s) w' = watchers s w'"
  by (simp add: addDep_def upd_watcher_def addSub_def Let_def)

lemma addDep_watcher:
  "watchers (addDep w d s) w =
     (watchers s w)\<lparr>newDepIds := insert d (newDepIds (watchers s w)),
        newDeps := (if d \<in> newDepIds (watchers s w) then newDeps (watchers s w)
                    else newDeps (watchers s w) @ [d])\<rparr>"
  by (simp add: addDep_def upd_watcher_def addSub_def Let_def insert_absorb)

lemma addDep_subs:
  "subs (addDep w d s) x =
     (if x = d \<and> d \<notin> newDepIds (watchers s w) \<and> d \<notin> depIds (watchers s w)
      then subs s d @ [w] else subs s x)"
  by (simp add: addDep_def upd_watcher_def addSub_def Let_def)

lemma depend_Some: "target s = Some w \<Longrightarrow> depend d s = addDep w d (emit (DependCall d w) s)"
  by (simp add: depend_def)

lemma fold_depend_frame:
  "target s = Some w \<Longrightarrow>
     target (fold depend ds s) = Some w \<and>
     targetStack (fold depend ds s) = targetStack s \<and>
     heap (fold depend ds s) = heap s \<and>
     observers (fold depend ds s) = observers s \<and>
     vms (fold depend ds s) = vms s \<and>
     queue (fold depend ds s) = queue s \<and>
     dep_uid (fold depend ds s) = dep_uid s \<and>
     ob_uid (fold depend ds s) = ob_uid s \<and>
     watcher_uid (fold depend ds s) = watcher_uid s \<and>
     shouldObserve (fold depend ds s) = shouldObserve s \<and>
     trace (fold depend ds s) = trace s @ map (\<lambda>d. DependCall d w) ds"
  by (induction ds arbitrary: s) (simp_all add: depend_Some)

lemma fold_depend_other:
  "target s = Some w \<Longrightarrow> w' \<noteq> w \<Longrightarrow> watchers (fold depend ds s) w' = watchers s w'"
  by (induction ds arbitrary: s) (simp_all add: depend_Some addDep_other)

lemma fold_depend_watcher:
  "target s = Some w \<Longrightarrow>
   \<exists>L. watchers (fold depend ds s) w =
         (watchers s w)\<lparr>newDepIds := newDepIds (watchers s w) \<union> set ds,
                        newDeps := newDeps (watchers s w) @ L\<rparr> \<and>
       set L = set ds - newDepIds (watchers s w) \<and> distinct L"
proof (induction ds arbitrary: s)
  case Nil
  then show ?case by simp
next
  case (Cons d ds)
  let ?s = "addDep w d (emit (DependCall d w) s)"
  have t: "target ?s = Some w" using Cons.prems by simp
  from Cons.IH [OF t] obtain L where
    L: "watchers (fold depend ds ?s) w =
         (watchers ?s w)\<lparr>newDepIds := newDepIds (watchers ?s w) \<union> set ds,
                        newDeps := newDeps (watchers ?s w) @ L\<rparr>"
       "set L = set ds - newDepIds (watchers ?s w)" "distinct L"
    by blast
  have f: "fold depend (d # ds) s = fold depend ds ?s"
    using Cons.prems by (simp add: depend_Some)
  show ?case
  proof (cases "d \<in> newDepIds (watchers s w)")
    case True
    have "watchers (fold depend (d # ds) s) w =
         (watchers s w)\<lparr>newDepIds := newDepIds (watchers s w) \<union> set (d # ds),
                        newDeps := newDeps (watchers s w) @ L\<rparr>"
      unfolding f using True L(1) by (simp add: addDep_watcher insert_absorb)
    moreover have "set L = set (d # ds) - newDepIds (watchers s w)"
      using True L(2) by (auto simp: addDep_watcher)
    ultimately show ?thesis using L(3) by blast
  next
    case False
    have "watchers (fold depend (d # ds) s) w =
         (watchers s w)\<lparr>newDepIds := newDepIds (watchers s w) \<union> set (d # ds),
                        newDeps := newDeps (watchers s w) @ (d # L)\<rparr>"
      unfolding f using False L(1) by (simp add: addDep_watcher)
    moreover have "set (d # L) = set (d # ds) - newDepIds (watchers s w)"
      using False L(2) by (auto simp: addDep_watcher)
    moreover have "distinct (d # L)"
      using L(2,3) by (simp add: addDep_watcher)
    ultimately show ?thesis by blast
  qed
qed

lemma fold_depend_subs:
  "target s = Some w \<Longrightarrow>
   subs (fold depend ds s) x =
     (if x \<in> set ds \<and> x \<notin> newDepIds (watchers s w) \<and> x \<notin> depIds (watchers s w)
      then subs s x @ [w] else subs s x)"
proof (induction ds arbitrary: s)
  case Nil
  then show ?case by simp
next
  case (Cons d ds)
  let ?s = "addDep w d (emit (DependCall d w) s)"
  have t: "target ?s = Some w" using Cons.prems by simp
  have f: "fold depend (d # ds) s = fold depend ds ?s"
    using Cons.prems by (simp add: depend_Some)
  show ?case unfolding f Cons.IH [OF t]
    by (auto simp: addDep_watcher addDep_subs)
qed


lemma removeSub_frame [simp]:
  "trace (removeSub d w s) = trace s" "target (removeSub d w s) = target s"
  "targetStack (removeSub d w s) = targetStack s" "heap (removeSub d w s) = heap s"
  "observers (removeSub d w s) = observers s" "vms (removeSub d w s) = vms s"
  "queue (removeSub d w s) = queue s" "dep_uid (removeSub d w s) = dep_uid s"
  "ob_uid (removeSub d w s) = ob_uid s" "watcher_uid (removeSub d w s) = watcher_uid s"
  "shouldObserve (removeSub d w s) = shouldObserve s" "watchers (removeSub d w s) = watchers s"
  by (simp_all add: removeSub_def)

lemma removeSub_subs:
  "subs (removeSub d w s) x = (if x = d then remove1 w (subs s d) else subs s x)"
  by (simp add: removeSub_def remove_item_def)

lemma upd_watcher_frame [simp]:
  "trace (upd_watcher w f s) = trace s" "target (upd_watcher w f s) = target s"
  "targetStack (upd_watcher w f s) = targetStack s" "heap (upd_watcher w f s) = heap s"
  "observers (upd_watcher w f s) = observers s" "vms (upd_watcher w f s) = vms s"
  "queue (upd_watcher w f s) = queue s" "dep_uid (upd_watcher w f s) = dep_uid s"
  "ob_uid (upd_watcher w f s) = ob_uid s" "watcher_uid (upd_watcher w f s) = watcher_uid s"
  "shouldObserve (upd_watcher w f s) = shouldObserve s" "subs (upd_watcher w f s) = subs s"
  by (simp_all add: upd_watcher_def)

lemma upd_watcher_watchers:
  "watchers (upd_watcher w f s) x = (if x = w then f (watchers s w) else watchers s x)"
  by (simp add: upd_watcher_def)

lemma pushTarget_frame [simp]:
  "trace (pushTarget t s) = trace s" "target (pushTarget t s) = t"
  "targetStack (pushTarget t s) = targetStack s @ [t]" "heap (pushTarget t s) = heap s"
  "observers (pushTarget t s) = observers s" "vms (pushTarget t s) = vms s"
  "queue (pushTarget t s) = queue s" "dep_uid (pushTarget t s) = dep_uid s"
  "ob_uid (pushTarget t s) = ob_uid s" "watcher_uid (pushTarget t s) = watcher_uid s"
  "shouldObserve (pushTarget t s) = shouldObserve s" "subs (pushTarget t s) = subs s"
  "watchers (pushTarget t s) = watchers s"
  by (simp_all add: pushTarget_def)

lemma popTarget_frame [simp]:
  "trace (popTarget s) = trace s"
  "target (popTarget s) =
     (if butlast (targetStack s) = [] then None else last (butlast (targetStack s)))"
  "targetStack (popTarget s) = butlast (targetStack s)" "heap (popTarget s) = heap s"
  "observers (popTarget s) = observers s" "vms (popTarget s) = vms s"
  "queue (popTarget s) = queue s" "dep_uid (popTarget s) = dep_uid s"
  "ob_uid (popTarget s) = ob_uid s" "watcher_uid (popTarget s) = watcher_uid s"
  "shouldObserve (popTarget s) = shouldObserve s" "subs (popTarget s) = subs s"
  "watchers (popTarget s) = watchers s"
  by (simp_all add: popTarget_def Let_def)

lemma cleanupDeps_loop_frame [simp]:
  "trace (cleanupDeps_loop w i s) = trace s" "target (cleanupDeps_loop w i s) = target s"
  "targetStack (cleanupDeps_loop w i s) = targetStack s"
  "heap (cleanupDeps_loop w i s) = heap s" "observers (cleanupDeps_loop w i s) = observers s"
  "vms (cleanupDeps_loop w i s) = vms s" "queue (cleanupDeps_loop w i s) = queue s"
  "dep_uid (cleanupDeps_loop w i s) = dep_uid s" "ob_uid (cleanupDeps_loop w i s) = ob_uid s"
  "watcher_uid (cleanupDeps_loop w i s) = watcher_uid s"
  "shouldObserve (cleanupDeps_loop w i s) = shouldObserve s"
  "watchers (cleanupDeps_loop w i s) = watchers s"
  by (induction i arbitrary: s; simp add: Let_def)+

lemma cleanupDeps_loop_subs:
  "distinct (deps (watchers s w)) \<Longrightarrow> i \<le> length (deps (watchers s w)) \<Longrightarrow>
   subs (cleanupDeps_loop w i s) x =
     (if x \<in> set (take i (deps (watchers s w))) \<and> x \<notin> newDepIds (watchers s w)
      then remove1 w (subs s x) else subs s x)"
proof (induction i arbitrary: s)
  case 0
  then show ?case by simp
next
  case (Suc i)
  let ?d = "deps (watchers s w) ! i"
  let ?s = "if ?d \<notin> newDepIds (watchers s w) then removeSub ?d w s else s"
  have w: "watchers ?s = watchers s" by simp
  have i: "i < length (deps (watchers s w))" using Suc.prems by simp
  have nin: "?d \<notin> set (take i (deps (watchers s w)))"
    using Suc.prems(1) i by (metis distinct_take id_take_nth_drop not_distinct_conv_prefix)
  have IH: "subs (cleanupDeps_loop w i ?s) x =
     (if x \<in> set (take i (deps (watchers s w))) \<and> x \<notin> newDepIds (watchers s w)
      then remove1 w (subs ?s x) else subs ?s x)"
    using Suc.IH [of ?s] Suc.prems unfolding w by simp
  have e: "cleanupDeps_loop w (Suc i) s = cleanupDeps_loop w i ?s"
    by (simp add: Let_def)
  show ?case unfolding e IH using nin i
    by (auto simp: take_Suc_conv_app_nth removeSub_subs)
qed


lemma entered_simps [simp]:
  "trace (entered w s) = trace s @ [GetterCall w]" "target (entered w s) = Some w"
  "targetStack (entered w s) = targetStack s @ [Some w]" "heap (entered w s) = heap s"
  "observers (entered w s) = observers s" "vms (entered w s) = vms s"
  "queue (entered w s) = queue s" "dep_uid (entered w s) = dep_uid s"
  "ob_uid (entered w s) = ob_uid s" "watcher_uid (entered w s) = watcher_uid s"
  "shouldObserve (entered w s) = shouldObserve s" "subs (entered w s) = subs s"
  "watchers (entered w s) = watchers s"
  by (simp_all add: entered_def)

lemma fold_depend_flags:
  assumes "target s = Some w"
  shows "user (watchers (fold depend ds s) w) = user (watchers s w)"
    and "deep (watchers (fold depend ds s) w) = deep (watchers s w)"
    and "deps (watchers (fold depend ds s) w) = deps (watchers s w)"
    and "depIds (watchers (fold depend ds s) w) = depIds (watchers s w)"
    and "newDepIds (watchers (fold depend ds s) w) = newDepIds (watchers s w) \<union> set ds"
proof -
  from fold_depend_watcher [OF assms, of ds] obtain L where
    "watchers (fold depend ds s) w =
         (watchers s w)\<lparr>newDepIds := newDepIds (watchers s w) \<union> set ds,
                        newDeps := newDeps (watchers s w) @ L\<rparr>" by blast
  then show "user (watchers (fold depend ds s) w) = user (watchers s w)"
    and "deep (watchers (fold depend ds s) w) = deep (watchers s w)"
    and "deps (watchers (fold depend ds s) w) = deps (watchers s w)"
    and "depIds (watchers (fold depend ds s) w) = depIds (watchers s w)"
    and "newDepIds (watchers (fold depend ds s) w) = newDepIds (watchers s w) \<union> set ds"
    by simp_all
qed

lemma get_normal:
  assumes "getterFn E w (entered w s) = (T1, Inr v)"
  shows "get E w s = (Inr v, cleanupDeps w (popTarget (fold depend
           (T1 @ (if deep (watchers s w) \<and> isObject v
                  then traverseFn E v (fold depend T1 (entered w s)) else []))
           (entered w s))))"
  using assms fold_depend_flags(2) [of "entered w s" w T1]
  by (simp add: get_def entered_def [symmetric] traverse_def Let_def)

lemma get_handled:
  assumes "getterFn E w (entered w s) = (T1, Inl e)" "user (watchers s w)"
  shows "get E w s = (Inr JUndefined,
           cleanupDeps w (popTarget (emit (HandleError e w) (fold depend T1 (entered w s)))))"
  using assms fold_depend_flags(1) [of "entered w s" w T1]
  by (simp add: get_def entered_def [symmetric] traverse_def Let_def isObject_def)

lemma get_thrown:
  assumes "getterFn E w (entered w s) = (T1, Inl e)" "\<not> user (watchers s w)"
  shows "get E w s = (Inl e, cleanupDeps w (popTarget (fold depend T1 (entered w s))))"
  using assms fold_depend_flags(1) [of "entered w s" w T1]
  by (simp add: get_def entered_def [symmetric] traverse_def Let_def isObject_def)


lemma cleanupDeps_frame [simp]:
  "trace (cleanupDeps w s) = trace s" "target (cleanupDeps w s) = target s"
  "targetStack (cleanupDeps w s) = targetStack s" "heap (cleanupDeps w s) = heap s"
  "observers (cleanupDeps w s) = observers s" "vms (cleanupDeps w s) = vms s"
  "queue (cleanupDeps w s) = queue s" "dep_uid (cleanupDeps w s) = dep_uid s"
  "ob_uid (cleanupDeps w s) = ob_uid s" "watcher_uid (cleanupDeps w s) = watcher_uid s"
  "shouldObserve (cleanupDeps w s) = shouldObserve s"
  by (simp_all add: cleanupDeps_def Let_def)

lemma cleanupDeps_watchers:
  "watchers (cleanupDeps w s) x =
     (if x = w then (watchers s w)\<lparr>depIds := newDepIds (watchers s w), newDepIds := {},
                      deps := newDeps (watchers s w), newDeps := []\<rparr>
      else watchers s x)"
  by (simp add: cleanupDeps_def Let_def upd_watcher_watchers)

lemma cleanupDeps_subs:
  "distinct (deps (watchers s w)) \<Longrightarrow>
   subs (cleanupDeps w s) x =
     (if x \<in> set (deps (watchers s w)) \<and> x \<notin> newDepIds (watchers s w)
      then remove1 w (subs s x) else subs s x)"
  by (simp add: cleanupDeps_def Let_def cleanupDeps_loop_subs)

lemma collected_frame:
  assumes H: "s4 = fold depend T (entered w s) \<or> s4 = emit ev (fold depend T (entered w s))"
  defines "s' \<equiv> cleanupDeps w (popTarget s4)"
  shows "targetStack s' = targetStack s"
    and "target s' = (if targetStack s = [] then None else last (targetStack s))"
    and "heap s' = heap s" and "observers s' = observers s" and "vms s' = vms s"
    and "queue s' = queue s" and "dep_uid s' = dep_uid s" and "ob_uid s' = ob_uid s"
    and "watcher_uid s' = watcher_uid s" and "shouldObserve s' = shouldObserve s"
    and "trace s' = trace s @ [GetterCall w] @ map (\<lambda>d. DependCall d w) T @
           (if s4 = fold depend T (entered w s) then [] else [ev])"
    and "w' \<noteq> w \<Longrightarrow> watchers s' w' = watchers s w'"
    and "\<exists>Ids Ds. watchers s' w = (watchers s w)\<lparr>depIds := Ids, newDepIds := {},
                      deps := Ds, newDeps := []\<rparr>"
proof -
  let ?F = "fold depend T (entered w s)"
  have t: "target (entered w s) = Some w" by simp
  note fr = fold_depend_frame [OF t, of T]
  have p: "targetStack s4 = targetStack s @ [Some w]" "heap s4 = heap s"
    "observers s4 = observers s" "vms s4 = vms s" "queue s4 = queue s"
    "dep_uid s4 = dep_uid s" "ob_uid s4 = ob_uid s" "watcher_uid s4 = watcher_uid s"
    "shouldObserve s4 = shouldObserve s"
    using H fr by auto
  show "targetStack s' = targetStack s" by (simp add: s'_def p)
  show "target s' = (if targetStack s = [] then None else last (targetStack s))"
    by (simp add: s'_def p)
  show "heap s' = heap s" by (simp add: s'_def p)
  show "observers s' = observers s" by (simp add: s'_def p)
  show "vms s' = vms s" by (simp add: s'_def p)
  show "queue s' = queue s" by (simp add: s'_def p)
  show "dep_uid s' = dep_uid s" by (simp add: s'_def p)
  show "ob_uid s' = ob_uid s" by (simp add: s'_def p)
  show "watcher_uid s' = watcher_uid s" by (simp add: s'_def p)
  show "shouldObserve s' = shouldObserve s" by (simp add: s'_def p)
  show "trace s' = trace s @ [GetterCall w] @ map (\<lambda>d. DependCall d w) T @
           (if s4 = ?F then [] else [ev])"
  proof (cases "s4 = ?F")
    case True
    then show ?thesis using fr by (simp add: s'_def)
  next
    case False
    then have "s4 = emit ev ?F" using H by blast
    then show ?thesis using False fr by (simp add: s'_def)
  qed
  show "w' \<noteq> w \<Longrightarrow> watchers s' w' = watchers s w'"
    using H fold_depend_other [OF t, of w' T] by (auto simp: s'_def cleanupDeps_watchers)
  from fold_depend_watcher [OF t, of T] obtain L where
    L: "watchers ?F w = (watchers (entered w s) w)
           \<lparr>newDepIds := newDepIds (watchers (entered w s) w) \<union> set T,
            newDeps := newDeps (watchers (entered w s) w) @ L\<rparr>" by blast
  have "watchers s' w = (watchers ?F w)\<lparr>depIds := newDepIds (watchers ?F w), newDepIds := {},
                      deps := newDeps (watchers ?F w), newDeps := []\<rparr>"
    using H by (auto simp: s'_def cleanupDeps_watchers)
  then show "\<exists>Ids Ds. watchers s' w = (watchers s w)\<lparr>depIds := Ids, newDepIds := {},
                      deps := Ds, newDeps := []\<rparr>"
    unfolding L by auto
qed

lemma collected_deps:
  assumes H: "s4 = fold depend T (entered w s) \<or> s4 = emit ev (fold depend T (entered w s))"
    and st: "settled s w"
  defines "s' \<equiv> cleanupDeps w (popTarget s4)"
  shows "depIds (watchers s' w) = set T"
    and "settled s' w"
    and "subs s' x =
          (if x \<in> depIds (watchers s w) \<and> x \<notin> set T then remove1 w (subs s x)
           else if x \<in> set T \<and> x \<notin> depIds (watchers s w) then subs s x @ [w]
           else subs s x)"
proof -
  let ?F = "fold depend T (entered w s)"
  have t: "target (entered w s) = Some w" by simp
  from fold_depend_watcher [OF t, of T] obtain L where
    L: "watchers ?F w = (watchers s w)
           \<lparr>newDepIds := newDepIds (watchers s w) \<union> set T,
            newDeps := newDeps (watchers s w) @ L\<rparr>"
       "set L = set T - newDepIds (watchers s w)" "distinct L" by auto
  have w4: "watchers s4 = watchers ?F" and s4: "subs s4 = subs ?F" using H by auto
  have W: "watchers s' w = (watchers ?F w)\<lparr>depIds := newDepIds (watchers ?F w), newDepIds := {},
                      deps := newDeps (watchers ?F w), newDeps := []\<rparr>"
    by (simp add: s'_def cleanupDeps_watchers w4)
  show "depIds (watchers s' w) = set T"
    using st by (simp add: settled_def W L(1))
  show "settled s' w"
    using st L(2,3) by (simp add: settled_def W L(1))
  have d: "distinct (deps (watchers (popTarget s4) w))"
    using st by (simp add: w4 L(1) settled_def)
  show "subs s' x =
          (if x \<in> depIds (watchers s w) \<and> x \<notin> set T then remove1 w (subs s x)
           else if x \<in> set T \<and> x \<notin> depIds (watchers s w) then subs s x @ [w]
           else subs s x)"
    unfolding s'_def cleanupDeps_subs [OF d]
    using st by (simp add: w4 s4 L(1) fold_depend_subs [OF t] settled_def)
qed

section \<open>The state at the end of get\<close>

lemma count_list_remove1: "count_list (remove1 x xs) x = count_list xs x - 1"
  by (induction xs) auto

lemma get_shape:
  obtains T hs where
    "snd (get E w s) = cleanupDeps w (popTarget (hs (fold depend T (entered w s))))"
    "hs = id \<or> (\<exists>e. hs = emit (HandleError e w))"
proof (cases "getterFn E w (entered w s)")
  case (Pair T1 oc)
  show thesis
  proof (cases oc)
    case (Inr v)
    with Pair get_normal [of E w s T1 v] show thesis
      by (intro that [of id "T1 @ (if deep (watchers s w) \<and> isObject v
                  then traverseFn E v (fold depend T1 (entered w s)) else [])"]) simp_all
  next
    case (Inl e)
    show thesis
    proof (cases "user (watchers s w)")
      case True
      with Pair Inl get_handled [of E w s T1 e] show thesis
        by (intro that [of "emit (HandleError e w)" T1]) auto
    next
      case False
      with Pair Inl get_thrown [of E w s T1 e] show thesis
        by (intro that [of id T1]) auto
    qed
  qed
qed

lemma get_frame:
  assumes "get E w s = (r, s')"
  shows "targetStack s' = targetStack s"
    and "target s' = (if targetStack s = [] then None else last (targetStack s))"
    and "heap s' = heap s" and "observers s' = observers s" and "vms s' = vms s"
    and "queue s' = queue s" and "dep_uid s' = dep_uid s" and "ob_uid s' = ob_uid s"
    and "watcher_uid s' = watcher_uid s" and "shouldObserve s' = shouldObserve s"
    and "w' \<noteq> w \<Longrightarrow> watchers s' w' = watchers s w'"
    and "\<exists>Ids Ds. watchers s' w = (watchers s w)\<lparr>depIds := Ids, newDepIds := {},
                      deps := Ds, newDeps := []\<rparr>"
    and "\<exists>T hs. trace s' = trace s @ [GetterCall w] @ map (\<lambda>d. DependCall d w) T @ hs \<and>
           (hs = [] \<or> (\<exists>e. hs = [HandleError e w]))"
proof -
  obtain T hs where
    g: "snd (get E w s) = cleanupDeps w (popTarget (hs (fold depend T (entered w s))))"
    and hs: "hs = id \<or> (\<exists>e. hs = emit (HandleError e w))"
    by (rule get_shape)
  have s': "s' = cleanupDeps w (popTarget (hs (fold depend T (entered w s))))"
    using g assms by simp
  from hs obtain ev where
    H: "hs (fold depend T (entered w s)) = fold depend T (entered w s) \<or>
        hs (fold depend T (entered w s)) = emit (HandleError ev w) (fold depend T (entered w s))"
    by auto
  note cf = collected_frame [OF H, folded s']
  show "targetStack s' = targetStack s" by (rule cf)
  show "target s' = (if targetStack s = [] then None else last (targetStack s))" by (rule cf)
  show "heap s' = heap s" by (rule cf)
  show "observers s' = observers s" by (rule cf)
  show "vms s' = vms s" by (rule cf)
  show "queue s' = queue s" by (rule cf)
  show "dep_uid s' = dep_uid s" by (rule cf)
  show "ob_uid s' = ob_uid s" by (rule cf)
  show "watcher_uid s' = watcher_uid s" by (rule cf)
  show "shouldObserve s' = shouldObserve s" by (rule cf)
  show "w' \<noteq> w \<Longrightarrow> watchers s' w' = watchers s w'" by (rule cf)
  show "\<exists>Ids Ds. watchers s' w = (watchers s w)\<lparr>depIds := Ids, newDepIds := {},
                      deps := Ds, newDeps := []\<rparr>" by (rule cf)
  show "\<exists>T hs. trace s' = trace s @ [GetterCall w] @ map (\<lambda>d. DependCall d w) T @ hs \<and>
           (hs = [] \<or> (\<exists>e. hs = [HandleError e w]))"
    using cf(11) by (metis (full_types))
qed

lemma get_sets:
  assumes g: "get E w s = (r, s')" and st: "settled s w"
  shows "\<exists>T. depIds (watchers s' w) = set T \<and> settled s' w \<and>
          set T = {d. DependCall d w \<in> set (new_events s s')} \<and>
          (\<forall>x. subs s' x =
            (if x \<in> depIds (watchers s w) \<and> x \<notin> set T then remove1 w (subs s x)
             else if x \<in> set T \<and> x \<notin> depIds (watchers s w) then subs s x @ [w]
             else subs s x))"
proof -
  obtain T hs where
    g': "snd (get E w s) = cleanupDeps w (popTarget (hs (fold depend T (entered w s))))"
    and hs: "hs = id \<or> (\<exists>e. hs = emit (HandleError e w))"
    by (rule get_shape)
  have s': "s' = cleanupDeps w (popTarget (hs (fold depend T (entered w s))))"
    using g g' by simp
  from hs obtain ev where
    H: "hs (fold depend T (entered w s)) = fold depend T (entered w s) \<or>
        hs (fold depend T (entered w s)) = emit (HandleError ev w) (fold depend T (entered w s))"
    by auto
  note cd = collected_deps [OF H st, folded s']
  have tr: "trace s' = trace s @ [GetterCall w] @ map (\<lambda>d. DependCall d w) T @
           (if hs (fold depend T (entered w s)) = fold depend T (entered w s) then []
            else [HandleError ev w])"
    by (rule collected_frame(11) [OF H, folded s'])
  have "set T = {d. DependCall d w \<in> set (new_events s s')}"
    unfolding new_events_def tr by auto
  with cd show ?thesis by blast
qed

lemma get_invariant:
  assumes st: "settled s w" and sub: "subscribed_exactly s w" and g: "get E w s = (r, s')"
  shows "depIds (watchers s' w) = {d. DependCall d w \<in> set (new_events s s')}"
    and "settled s' w" and "subscribed_exactly s' w"
    and "d \<in> depIds (watchers s w) \<Longrightarrow> d \<in> depIds (watchers s' w) \<Longrightarrow> subs s' d = subs s d"
proof -
  from get_sets [OF g st] obtain T where
    T: "depIds (watchers s' w) = set T" "settled s' w"
       "set T = {d. DependCall d w \<in> set (new_events s s')}"
    and S: "\<And>x. subs s' x =
            (if x \<in> depIds (watchers s w) \<and> x \<notin> set T then remove1 w (subs s x)
             else if x \<in> set T \<and> x \<notin> depIds (watchers s w) then subs s x @ [w]
             else subs s x)"
    by blast
  show "depIds (watchers s' w) = {d. DependCall d w \<in> set (new_events s s')}"
    using T by simp
  show "settled s' w" by (rule T)
  have "count_list (subs s' x) w = (if x \<in> depIds (watchers s' w) then 1 else 0)" for x
    using sub unfolding subscribed_exactly_def T(1) S
    by (simp add: count_list_remove1)
  then show "subscribed_exactly s' w" by (simp add: subscribed_exactly_def)
  show "d \<in> depIds (watchers s w) \<Longrightarrow> d \<in> depIds (watchers s' w) \<Longrightarrow> subs s' d = subs s d"
    unfolding T(1) S by simp
qed


lemma get_keeps_flags:
  assumes "get E w s = (r, s')"
  shows "wvalue (watchers s' x) = wvalue (watchers s x)"
    and "deep (watchers s' x) = deep (watchers s x)"
    and "user (watchers s' x) = user (watchers s x)"
    and "lazy (watchers s' x) = lazy (watchers s x)"
    and "sync (watchers s' x) = sync (watchers s x)"
    and "active (watchers s' x) = active (watchers s x)"
    and "dirty (watchers s' x) = dirty (watchers s x)"
    and "vm (watchers s' x) = vm (watchers s x)"
proof -
  from get_frame(12) [OF assms] obtain Ids Ds where
    W: "watchers s' w = (watchers s w)\<lparr>depIds := Ids, newDepIds := {}, deps := Ds, newDeps := []\<rparr>"
    by blast
  have o: "x \<noteq> w \<Longrightarrow> watchers s' x = watchers s x" by (rule get_frame(11) [OF assms])
  show "wvalue (watchers s' x) = wvalue (watchers s x)" using W o by (cases "x = w") simp_all
  show "deep (watchers s' x) = deep (watchers s x)" using W o by (cases "x = w") simp_all
  show "user (watchers s' x) = user (watchers s x)" using W o by (cases "x = w") simp_all
  show "lazy (watchers s' x) = lazy (watchers s x)" using W o by (cases "x = w") simp_all
  show "sync (watchers s' x) = sync (watchers s x)" using W o by (cases "x = w") simp_all
  show "active (watchers s' x) = active (watchers s x)" using W o by (cases "x = w") simp_all
  show "dirty (watchers s' x) = dirty (watchers s x)" using W o by (cases "x = w") simp_all
  show "vm (watchers s' x) = vm (watchers s x)" using W o by (cases "x = w") simp_all
qed

lemma update_calls_append [simp]: "update_calls (xs @ ys) = update_calls xs @ update_calls ys"
  by (induction xs rule: update_calls.induct) simp_all

lemma getter_calls_append [simp]: "getter_calls (xs @ ys) = getter_calls xs @ getter_calls ys"
  by (induction xs rule: getter_calls.induct) simp_all

lemma calls_DependCall [simp]:
  "update_calls (map (\<lambda>d. DependCall d w) T) = []"
  "getter_calls (map (\<lambda>d. DependCall d w) T) = []"
  by (induction T) simp_all

lemma get_calls:
  assumes "get E w s = (r, s')"
  shows "\<exists>es. trace s' = trace s @ es \<and> update_calls es = [] \<and> getter_calls es = [w]"
proof -
  from get_frame(13) [OF assms] obtain T hs where
    "trace s' = trace s @ [GetterCall w] @ map (\<lambda>d. DependCall d w) T @ hs"
    "hs = [] \<or> (\<exists>e. hs = [HandleError e w])" by blast
  then show ?thesis by auto
qed

section \<open>The loop of teardown\<close>

lemma teardown_loop_frame [simp]:
  "trace (teardown_loop w i s) = trace s" "target (teardown_loop w i s) = target s"
  "targetStack (teardown_loop w i s) = targetStack s"
  "heap (teardown_loop w i s) = heap s" "observers (teardown_loop w i s) = observers s"
  "vms (teardown_loop w i s) = vms s" "queue (teardown_loop w i s) = queue s"
  "dep_uid (teardown_loop w i s) = dep_uid s" "ob_uid (teardown_loop w i s) = ob_uid s"
  "watcher_uid (teardown_loop w i s) = watcher_uid s"
  "shouldObserve (teardown_loop w i s) = shouldObserve s"
  "watchers (teardown_loop w i s) = watchers s"
  by (induction i arbitrary: s; simp)+



section \<open>The updates of a notification\<close>

lemma run_calls:
  "\<exists>es. trace (snd (run E w s)) = trace s @ es \<and> update_calls es = []"
proof (cases "active (watchers s w)")
  case False
  then show ?thesis by (simp add: run_def)
next
  case True
  obtain r0 s1 where g: "get E w s = (r0, s1)" by (cases "get E w s")
  from get_calls [OF g] obtain es where
    es: "trace s1 = trace s @ es" "update_calls es = []" by blast
  show ?thesis
  proof (cases r0)
    case (Inl e)
    then show ?thesis using True g es by (simp add: run_def)
  next
    case (Inr val)
    show ?thesis using True g es Inr
      by (simp add: run_def Let_def split: option.split)
  qed
qed

lemma update_calls_of_update:
  "\<exists>es. trace (snd (update E w s)) = trace s @ UpdateCall w # es \<and> update_calls es = []"
proof -
  from run_calls [of E w "emit (UpdateCall w) s"] obtain es where
    "trace (snd (run E w (emit (UpdateCall w) s))) = trace s @ UpdateCall w # es"
    "update_calls es = []" by auto
  then show ?thesis
    by (simp add: update_def Let_def queueWatcher_def)
qed

lemma notify_loop_calls:
  "notify_loop E ws s = (r, s') \<Longrightarrow>
   \<exists>es k. trace s' = trace s @ es \<and> update_calls es = take k ws \<and>
          (r = Inr () \<longrightarrow> update_calls es = ws)"
proof (induction ws arbitrary: s)
  case Nil
  then show ?case by simp
next
  case (Cons x ws)
  obtain r1 s1 where u: "update E x s = (r1, s1)" by (cases "update E x s")
  from update_calls_of_update [of E x s] u obtain es1 where
    es1: "trace s1 = trace s @ UpdateCall x # es1" "update_calls es1 = []" by auto
  show ?case
  proof (cases r1)
    case (Inl e)
    then have "r = Inl e" "s' = s1" using Cons.prems u by simp_all
    then show ?thesis using es1
      by (intro exI [of _ "UpdateCall x # es1"] exI [of _ 1]) simp
  next
    case (Inr y)
    then have "notify_loop E ws s1 = (r, s')" using Cons.prems u by simp
    from Cons.IH [OF this] obtain es k where
      "trace s' = trace s1 @ es" "update_calls es = take k ws"
      "r = Inr () \<longrightarrow> update_calls es = ws" by blast
    then show ?thesis using es1
      by (intro exI [of _ "UpdateCall x # es1 @ es"] exI [of _ "Suc k"]) simp
  qed
qed

lemma notify_calls:
  assumes "notify E d s = (r, s')"
  shows "notify_subs E d s = (if \<not> production E \<and> \<not> async E then sort (subs s d) else subs s d) \<and>
         (\<exists>k. update_calls (new_events s s') = take k (notify_subs E d s)) \<and>
         (r = Inr () \<longrightarrow> update_calls (new_events s s') = notify_subs E d s)"
proof -
  from notify_loop_calls [OF assms [unfolded notify_def]] obtain es k where
    "trace s' = trace s @ es" "update_calls es = take k (notify_subs E d s)"
    "r = Inr () \<longrightarrow> update_calls es = notify_subs E d s" by blast
  then show ?thesis by (auto simp: new_events_def notify_subs_def)
qed

section \<open>What observing keeps\<close>

lemma ob_kept_refl [simp]: "ob_kept s s" by (simp add: ob_kept_def)

lemma ob_kept_trans: "ob_kept s s1 \<Longrightarrow> ob_kept s1 s2 \<Longrightarrow> ob_kept s s2"
  by (simp add: ob_kept_def)

lemma store_prop_simps [simp]:
  "ob (store_prop k p obj) = ob obj" "kind (store_prop k p obj) = kind obj"
  "elems (store_prop k p obj) = elems obj" "extensible (store_prop k p obj) = extensible obj"
  "isVue (store_prop k p obj) = isVue obj" "inherited (store_prop k p obj) = inherited obj"
  "intercepted (store_prop k p obj) = intercepted obj"
  by (simp_all add: store_prop_def)

lemma ob_kept_store: "ob_kept s s1 \<Longrightarrow> ob_kept s (upd_obj a (store_prop k p) s1)"
  by (simp add: ob_kept_def upd_obj_def)

lemma ob_kept_count_root: "ob_kept s s1 \<Longrightarrow> ob_kept s (count_root r x s1)"
  by (simp add: ob_kept_def count_root_def split: option.splits)

lemma ob_kept_Dep_new: "ob_kept s (snd (Dep_new s))"
  by (simp add: ob_kept_def Dep_new_def)

lemma ob_kept_Observer_init:
  "ob (heap s a) = None \<Longrightarrow> ob_kept s (snd (Observer_init a s))"
  by (simp add: ob_kept_def Observer_init_def Let_def split_beta upd_obj_def Dep_new_def)

lemma ob_kept_augment:
  "ob_kept s (if hasProto E then protoAugment a s else copyAugment a s)"
  by (simp add: ob_kept_def protoAugment_def copyAugment_def upd_obj_def)

lemma count_root_None [simp]: "count_root r None s = s"
  by (simp add: count_root_def)

lemma count_root_heap [simp]: "heap (count_root r x s) = heap s"
  by (simp add: count_root_def split: option.splits)

lemma Dep_new_simps [simp]:
  "heap (snd (Dep_new s)) = heap s" "fst (Dep_new s) = dep_uid s"
  "observers (snd (Dep_new s)) = observers s" "ob_uid (snd (Dep_new s)) = ob_uid s"
  "trace (snd (Dep_new s)) = trace s" "watchers (snd (Dep_new s)) = watchers s"
  "shouldObserve (snd (Dep_new s)) = shouldObserve s"
  by (simp_all add: Dep_new_def)

lemma Observer_init_simps:
  "fst (Observer_init a s) = ob_uid s"
  "heap (snd (Observer_init a s)) = (heap s)(a := (heap s a)\<lparr>ob := Some (ob_uid s)\<rparr>)"
  "shouldObserve (snd (Observer_init a s)) = shouldObserve s"
  by (simp_all add: Observer_init_def Let_def split_beta upd_obj_def)

lemma observe_prim: "\<not> isObject v \<Longrightarrow> observe n E v r s = Some (None, s)"
  by (cases v) (simp_all add: observe.simps isObject_def)

lemma observe_JRef:
  "observe n E (JRef a) r s =
     (if kind (heap s a) = VNodeObject then Some (None, s)
      else case ob (heap s a) of
             Some i \<Rightarrow> Some (Some i, count_root r (Some i) s)
           | None \<Rightarrow>
               if observable E s a
               then (case n of
                       0 \<Rightarrow> None
                     | Suc m \<Rightarrow> (case Observer_new m E a s of
                                  None \<Rightarrow> None
                                | Some (i, s1) \<Rightarrow> Some (Some i, count_root r (Some i) s1)))
               else Some (None, s))"
  by (subst observe.simps) (auto simp: observable_def split: option.splits)

lemma observe_cases:
  assumes "observe n E v r s = Some (x, s')"
  obtains (none) "x = None" "s' = s"
  | (old) a i where "v = JRef a" "ob (heap s a) = Some i" "x = Some i"
      "s' = count_root r (Some i) s" "kind (heap s a) \<noteq> VNodeObject"
  | (new) a i m s1 where "v = JRef a" "ob (heap s a) = None" "observable E s a" "n = Suc m"
      "kind (heap s a) \<noteq> VNodeObject"
      "Observer_new m E a s = Some (i, s1)" "x = Some i" "s' = count_root r (Some i) s1"
proof (cases "isObject v")
  case False
  then show ?thesis using assms none by (simp add: observe_prim)
next
  case True
  then obtain a where v: "v = JRef a" by (cases v) (simp_all add: isObject_def)
  show ?thesis
  proof (cases "kind (heap s a) = VNodeObject")
    case True
    then show ?thesis using assms none unfolding v observe_JRef by simp
  next
    case nv: False
    show ?thesis
    proof (cases "ob (heap s a)")
      case (Some i)
      have "x = Some i" "s' = count_root r (Some i) s"
        using assms nv Some unfolding v observe_JRef by auto
      then show ?thesis using old [of a i] v Some nv by blast
    next
      case None
      show ?thesis
      proof (cases "observable E s a")
        case False
        then show ?thesis using assms nv None none unfolding v observe_JRef by simp
      next
        case ov: True
        show ?thesis
        proof (cases n)
          case 0
          then show ?thesis using assms nv None ov unfolding v observe_JRef by simp
        next
          case (Suc m)
          from assms nv None ov Suc obtain i s1 where
            "Observer_new m E a s = Some (i, s1)" "x = Some i"
            "s' = count_root r (Some i) s1"
            unfolding v observe_JRef by (auto split: option.splits)
          then show ?thesis using new [of a m i s1] v None ov Suc nv by blast
        qed
      qed
    qed
  qed
qed

lemma Observer_new_cases:
  assumes "Observer_new m E a s = Some (i, s')"
  obtains (array) "i = ob_uid s" "kind (heap s a) = ArrayObject"
      "observeArray m E (elems (heap s a))
         (if hasProto E then protoAugment a (snd (Observer_init a s))
          else copyAugment a (snd (Observer_init a s))) = Some s'"
  | (object) "i = ob_uid s" "kind (heap s a) \<noteq> ArrayObject"
      "walk m E a (own_keys (heap s a)) (snd (Observer_init a s)) = Some s'"
proof (cases "kind (heap s a) = ArrayObject")
  case True
  then show ?thesis using assms array
    by (simp add: Observer_new.simps split_beta Observer_init_simps split: option.splits)
next
  case False
  then show ?thesis using assms object
    by (simp add: Observer_new.simps split_beta Observer_init_simps own_keys_def
        split: option.splits)
qed

lemma defineReactive_cases:
  assumes "defineReactive m E a k val c sh s = Some s'"
  obtains (fixed) "s' = snd (Dep_new s)"
  | (installed) childOb s2 p where
      "sh \<and> childOb = None \<and> s2 = snd (Dep_new s) \<or>
       \<not> sh \<and> observe m E (initial_val E (snd (Dep_new s)) a k val) False (snd (Dep_new s))
                = Some (childOb, s2)"
      "s' = upd_obj a (store_prop k p) s2"
      "slot p = Reactive (dep_uid s) (initial_val E (snd (Dep_new s)) a k val)
                  (found_getter (snd (Dep_new s)) a k) (found_setter (snd (Dep_new s)) a k)
                  childOb sh c"
  using assms
  by (auto simp: defineReactive.simps split_beta split: if_splits option.splits)

lemma keeps_ob_step:
  assumes obs: "\<forall>v r s x s'. observe m E v r s = Some (x, s') \<longrightarrow> ob_kept s s'"
  shows "defineReactive m E a k val c sh s = Some s' \<Longrightarrow> ob_kept s s'"
    and "walk m E a keys s = Some s' \<Longrightarrow> ob_kept s s'"
    and "observeArray m E items s = Some s' \<Longrightarrow> ob_kept s s'"
proof -
  have d: "ob_kept s s'" if "defineReactive m E a k val c sh s = Some s'" for a k val c sh s s'
    using that
  proof (cases rule: defineReactive_cases)
    case fixed
    then show ?thesis by (simp add: ob_kept_Dep_new)
  next
    case (installed childOb s2 p)
    have "ob_kept (snd (Dep_new s)) s2" using installed(1) obs ob_kept_refl by blast
    then have "ob_kept s s2" using ob_kept_Dep_new [of s] by (blast intro: ob_kept_trans)
    then show ?thesis using installed(2) by (simp add: ob_kept_store)
  qed
  show "defineReactive m E a k val c sh s = Some s' \<Longrightarrow> ob_kept s s'" by (rule d)
  show "walk m E a keys s = Some s' \<Longrightarrow> ob_kept s s'"
  proof (induction keys arbitrary: s)
    case Nil
    then show ?case by simp
  next
    case (Cons k keys)
    then show ?case by (auto split: option.splits intro: ob_kept_trans d)
  qed
  show "observeArray m E items s = Some s' \<Longrightarrow> ob_kept s s'"
  proof (induction items arbitrary: s)
    case Nil
    then show ?case by simp
  next
    case (Cons x items)
    from Cons.prems obtain r1 s1 where
      o: "observe m E x False s = Some (r1, s1)" and rest: "observeArray m E items s1 = Some s'"
      by (auto split: option.splits)
    have "ob_kept s s1" using o obs by blast
    moreover have "ob_kept s1 s'" using rest by (rule Cons.IH)
    ultimately show ?case by (rule ob_kept_trans)
  qed
qed

lemma observe_keeps_ob: "observe n E v r s = Some (x, s') \<Longrightarrow> ob_kept s s'"
proof (induction n arbitrary: v r s x s')
  case 0
  from "0.prems" show ?case
    by (cases rule: observe_cases) (simp_all add: ob_kept_count_root)
next
  case (Suc n)
  have obs: "\<forall>v r s x s'. observe n E v r s = Some (x, s') \<longrightarrow> ob_kept s s'"
    using Suc.IH by blast
  from Suc.prems show ?case
  proof (cases rule: observe_cases)
    case none
    then show ?thesis by simp
  next
    case (old a i)
    then show ?thesis by (simp add: ob_kept_count_root)
  next
    case (new a i m s1)
    then have m: "m = n" by simp
    let ?s3 = "snd (Observer_init a s)"
    have k3: "ob_kept s ?s3" using new(2) by (rule ob_kept_Observer_init)
    from new(6) have "ob_kept ?s3 s1"
    proof (cases rule: Observer_new_cases)
      case array
      have "ob_kept ?s3 (if hasProto E then protoAugment a ?s3 else copyAugment a ?s3)"
        by (rule ob_kept_augment)
      moreover have "ob_kept (if hasProto E then protoAugment a ?s3 else copyAugment a ?s3) s1"
        using keeps_ob_step(3) [OF obs] array(3) m by blast
      ultimately show ?thesis by (blast intro: ob_kept_trans)
    next
      case object
      show ?thesis using keeps_ob_step(2) [OF obs] object(3) m by blast
    qed
    then have "ob_kept s s1" using k3 by (blast intro: ob_kept_trans)
    then show ?thesis using new by (simp add: ob_kept_count_root)
  qed
qed

section \<open>Observed afterwards\<close>


lemma walk_keeps_ob: "walk m E a keys s = Some s' \<Longrightarrow> ob_kept s s'"
  using keeps_ob_step(2) [of m E] observe_keeps_ob by blast

lemma observeArray_keeps_ob: "observeArray m E items s = Some s' \<Longrightarrow> ob_kept s s'"
  using keeps_ob_step(3) [of m E] observe_keeps_ob by blast

lemma defineReactive_keeps_ob: "defineReactive m E a k val c sh s = Some s' \<Longrightarrow> ob_kept s s'"
  using keeps_ob_step(1) [of m E] observe_keeps_ob by blast







section \<open>The bound of observe\<close>

text \<open>A larger bound gives the same result.\<close>

lemma fuel_step:
  assumes obs: "\<forall>v r s x. observe m E v r s = Some x \<longrightarrow> observe (Suc m) E v r s = Some x"
  shows "defineReactive m E a k val c sh s = Some s' \<Longrightarrow>
           defineReactive (Suc m) E a k val c sh s = Some s'"
    and "walk m E a keys s = Some s' \<Longrightarrow> walk (Suc m) E a keys s = Some s'"
    and "observeArray m E items s = Some s' \<Longrightarrow> observeArray (Suc m) E items s = Some s'"
proof -
  have d: "defineReactive (Suc m) E a k val c sh s = Some s'"
    if "defineReactive m E a k val c sh s = Some s'" for a k val c sh s s'
    using that obs
    by (auto simp: defineReactive.simps split_beta split: if_splits option.splits)
  show "defineReactive m E a k val c sh s = Some s' \<Longrightarrow>
           defineReactive (Suc m) E a k val c sh s = Some s'" by (rule d)
  show "walk m E a keys s = Some s' \<Longrightarrow> walk (Suc m) E a keys s = Some s'"
  proof (induction keys arbitrary: s)
    case Nil
    then show ?case by simp
  next
    case (Cons k keys)
    from Cons.prems obtain s1 where
      "defineReactive m E a k None False False s = Some s1" "walk m E a keys s1 = Some s'"
      by (auto split: option.splits)
    then show ?case using d Cons.IH by simp
  qed
  show "observeArray m E items s = Some s' \<Longrightarrow> observeArray (Suc m) E items s = Some s'"
  proof (induction items arbitrary: s)
    case Nil
    then show ?case by simp
  next
    case (Cons x items)
    from Cons.prems obtain r1 s1 where
      "observe m E x False s = Some (r1, s1)" "observeArray m E items s1 = Some s'"
      by (auto split: option.splits)
    then show ?case using obs Cons.IH by simp
  qed
qed

lemma observe_fuel_Suc: "observe n E v r s = Some x \<Longrightarrow> observe (Suc n) E v r s = Some x"
proof (induction n arbitrary: v r s x)
  case 0
  show ?case
  proof (cases "isObject v")
    case False
    then show ?thesis using "0.prems" by (simp add: observe_prim)
  next
    case True
    then obtain a where v: "v = JRef a" by (cases v) (simp_all add: isObject_def)
    show ?thesis using "0.prems" unfolding v observe_JRef
      by (auto split: if_splits option.splits)
  qed
next
  case (Suc n)
  have obs: "\<forall>v r s x. observe n E v r s = Some x \<longrightarrow> observe (Suc n) E v r s = Some x"
    using Suc.IH by blast
  show ?case
  proof (cases "isObject v")
    case False
    then show ?thesis using Suc.prems by (simp add: observe_prim)
  next
    case True
    then obtain a where v: "v = JRef a" by (cases v) (simp_all add: isObject_def)
    have on: "Observer_new (Suc n) E a s = Some y" if "Observer_new n E a s = Some y" for y
      using that fuel_step(2,3) [OF obs]
      by (auto simp: Observer_new.simps split_beta split: if_splits option.splits)
    show ?thesis using Suc.prems on unfolding v observe_JRef
      by (auto split: if_splits option.splits)
  qed
qed

lemma observe_fuel_mono: "observe n E v r s = Some x \<Longrightarrow> observe (n + k) E v r s = Some x"
  by (induction k) (simp_all add: observe_fuel_Suc)

section \<open>The constructor and the entry conditions of get\<close>

text \<open>
  The constructor establishes the two entry conditions of \<open>get\<close> for the new
  watcher, whose id is in no subscriber list yet; \<open>get\<close> keeps them.
\<close>

lemma upd_wvalue_invariant:
  "settled (upd_watcher w (\<lambda>W. W\<lparr>wvalue := x\<rparr>) s) w = settled s w"
  "subscribed_exactly (upd_watcher w (\<lambda>W. W\<lparr>wvalue := x\<rparr>) s) w = subscribed_exactly s w"
  "active (watchers (upd_watcher w (\<lambda>W. W\<lparr>wvalue := x\<rparr>) s) w) = active (watchers s w)"
  by (simp_all add: settled_def subscribed_exactly_def upd_watcher_watchers)

lemma Watcher_new_invariant:
  assumes fresh: "\<forall>d. Suc (watcher_uid s) \<notin> set (subs s d)"
    and new: "Watcher_new E v options isRenderWatcher s = (Inr w, s')"
  shows "w = Suc (watcher_uid s) \<and> active (watchers s' w) \<and> settled s' w \<and>
         subscribed_exactly s' w"
proof -
  define W where "W =
           \<lparr>vm = v,
            deep = (case options of Some opts \<Rightarrow> o_deep opts | None \<Rightarrow> False),
            user = (case options of Some opts \<Rightarrow> o_user opts | None \<Rightarrow> False),
            lazy = (case options of Some opts \<Rightarrow> o_lazy opts | None \<Rightarrow> False),
            sync = (case options of Some opts \<Rightarrow> o_sync opts | None \<Rightarrow> False),
            dirty = (case options of Some opts \<Rightarrow> o_lazy opts | None \<Rightarrow> False),
            active = True, deps = [], newDeps = [],
            depIds = {}, newDepIds = {}, wvalue = JUndefined\<rparr>"
  define c1 where "c1 = (if isRenderWatcher
      then (vms s v)\<lparr>vm_watcher := Some (Suc (watcher_uid s))\<rparr> else vms s v)"
  define s1 where "s1 = s\<lparr>vms := (vms s)(v := c1\<lparr>vm_watchers := vm_watchers c1 @
         [Suc (watcher_uid s)]\<rparr>), watcher_uid := Suc (watcher_uid s),
       watchers := (watchers s)(Suc (watcher_uid s) := W)\<rparr>"
  have new': "Watcher_new E v options isRenderWatcher s =
     (if lazy W then (Inr (Suc (watcher_uid s)),
          upd_watcher (Suc (watcher_uid s)) (\<lambda>W. W\<lparr>wvalue := JUndefined\<rparr>) s1)
      else (case get E (Suc (watcher_uid s)) s1 of
              (Inl e, s2) \<Rightarrow> (Inl e, s2)
            | (Inr val, s2) \<Rightarrow> (Inr (Suc (watcher_uid s)),
                upd_watcher (Suc (watcher_uid s)) (\<lambda>W. W\<lparr>wvalue := val\<rparr>) s2)))"
    unfolding Watcher_new_def Let_def s1_def c1_def W_def by simp
  have s1: "watchers s1 (Suc (watcher_uid s)) = W" "subs s1 = subs s"
    by (simp_all add: s1_def)
  have c: "if lazy W
        then w = Suc (watcher_uid s) \<and>
             s' = upd_watcher (Suc (watcher_uid s)) (\<lambda>W. W\<lparr>wvalue := JUndefined\<rparr>) s1
        else (\<exists>val s2. get E (Suc (watcher_uid s)) s1 = (Inr val, s2) \<and>
                w = Suc (watcher_uid s) \<and>
                s' = upd_watcher (Suc (watcher_uid s)) (\<lambda>W. W\<lparr>wvalue := val\<rparr>) s2)"
    using new unfolding new'
    by (cases "get E (Suc (watcher_uid s)) s1")
      (auto split: if_splits sum.splits)
  let ?w = "Suc (watcher_uid s)"
  have a1: "active (watchers s1 ?w)" and st1: "settled s1 ?w"
    using s1 by (simp_all add: settled_def W_def)
  have sub1: "subscribed_exactly s1 ?w"
    using s1 fresh by (simp add: subscribed_exactly_def W_def)
  show ?thesis
  proof (cases "lazy W")
    case True
    then show ?thesis using c a1 st1 sub1 by (simp add: upd_wvalue_invariant)
  next
    case False
    then obtain val s2 where g: "get E ?w s1 = (Inr val, s2)" and w: "w = ?w"
      and s': "s' = upd_watcher ?w (\<lambda>W. W\<lparr>wvalue := val\<rparr>) s2"
      using c by auto
    have "settled s2 ?w" "subscribed_exactly s2 ?w"
      using get_invariant(2,3) [OF st1 sub1 g] by simp_all
    moreover have "active (watchers s2 ?w)" using get_keeps_flags(6) [OF g, of ?w] a1 by simp
    ultimately show ?thesis using w s' by (simp add: upd_wvalue_invariant)
  qed
qed

section \<open>Evaluating the examples\<close>

lemmas model_defs = Watcher_new_def get_def emit_def pushTarget_def popTarget_def depend_def
  addDep_def addSub_def removeSub_def remove_item_def upd_watcher_def cleanupDeps_def
  traverse_def isObject_def strict_eq_def run_def update_def evaluate_def teardown_def
  queueWatcher_def notify_def notify_subs_def new_events_def
  init_state_def empty_obj_def blank_watcher_def example_env_def flag_getter_def flag_state_def
  watched_state_def flipped_state_def torn_state_def entered_def

lemmas observer_defs = observe.simps Observer_new.simps defineReactive.simps Observer_init_def
  count_root_def Dep_new_def upd_obj_def store_prop_def lookup_prop_def own_keys_def
  protoAugment_def copyAugment_def getter_of_def setter_of_def is_reactive_def read_own_def
  found_getter_def found_setter_def initial_val_def data_prop_def data_state_def root_state_def

lemma root_state_facts:
  "ob (heap root_state 0) = Some 0" "kind (heap root_state 0) = PlainObject"
  "vmCount (observers root_state 0) = 1" "ob_uid root_state = 3"
  "lookup_prop (heap root_state 0) (KStr ''b'') = None" "inherited (heap root_state 0) = []"
  "isVue (heap root_state 0) = False"
  by (simp_all add: observer_defs model_defs Let_def)

section \<open>Dependency sets at the end of get\<close>

text \<open>
  C2 (as amended). For a watcher that enters \<open>get\<close> settled and subscribed to exactly
  the Deps of its current set: at the end of \<open>get\<close> its current set (\<open>depIds\<close>, and
  \<open>deps\<close> as a list) is exactly the set of Deps whose \<open>depend()\<close> ran with it as
  active collector during the evaluation; it is once in the subscriber list of each of
  them and in no other; and the subscriber list of a Dep that was in the previous set
  and is in the new one is unchanged, so \<open>addSub\<close> was not called for it again.
  The two entry conditions hold again at the end.
\<close>

theorem get_reconciles_subscriptions:
  assumes st: "settled s w" and sub: "subscribed_exactly s w" and g: "get E w s = (r, s')"
  shows "depIds (watchers s' w) = {d. DependCall d w \<in> set (new_events s s')} \<and>
         set (deps (watchers s' w)) = depIds (watchers s' w) \<and>
         (\<forall>d. count_list (subs s' d) w = (if d \<in> depIds (watchers s' w) then 1 else 0)) \<and>
         (\<forall>d. d \<in> depIds (watchers s w) \<and> d \<in> depIds (watchers s' w) \<longrightarrow>
              subs s' d = subs s d) \<and>
         settled s' w \<and> subscribed_exactly s' w"
  using get_invariant [OF st sub g] st
  by (simp add: settled_def subscribed_exactly_def)

text \<open>The watcher of the example after \<open>flag\<close> became false: it drops Dep 1 and takes Dep 2.\<close>

lemma flipped_settled: "settled flipped_state 1"
  by (auto simp add: settled_def model_defs Let_def)

lemma flipped_subscribed: "subscribed_exactly flipped_state 1"
  by (simp add: subscribed_exactly_def model_defs Let_def)

theorem get_reconciles_subscriptions_witness:
  "settled flipped_state 1 \<and> subscribed_exactly flipped_state 1 \<and>
   depIds (watchers (snd (get example_env 1 flipped_state)) 1) = {0, 2} \<and>
   subscribed_exactly (snd (get example_env 1 flipped_state)) 1 \<and>
   subs (snd (get example_env 1 flipped_state)) 1 = [] \<and>
   subs (snd (get example_env 1 flipped_state)) 2 = [1]"
proof -
  have e: "get example_env 1 flipped_state =
             (fst (get example_env 1 flipped_state), snd (get example_env 1 flipped_state))"
    by simp
  have a: "subscribed_exactly (snd (get example_env 1 flipped_state)) 1"
    using get_reconciles_subscriptions [OF flipped_settled flipped_subscribed e] by blast
  have b: "depIds (watchers (snd (get example_env 1 flipped_state)) 1) = {0, 2}"
    by (auto simp add: model_defs Let_def)
  have c: "subs (snd (get example_env 1 flipped_state)) 1 = []"
    by (simp add: model_defs Let_def)
  have d: "subs (snd (get example_env 1 flipped_state)) 2 = [1]"
    by (simp add: model_defs Let_def)
  show ?thesis using flipped_settled flipped_subscribed a b c d by blast
qed

text \<open>
  C2 as stated fails for a watcher that was torn down, such as a lazy watcher that
  is evaluated again after its owner was destroyed (\<open>evaluate\<close> calls \<open>get\<close>
  without looking at \<open>active\<close>): \<open>teardown\<close> takes it out of the subscriber lists
  and keeps \<open>depIds\<close>, so the next \<open>get\<close> finds Dep 0 in \<open>depIds\<close>, does not
  subscribe, and ends with Dep 0 in the current set while the watcher is not among
  the subscribers of Dep 0.
\<close>

theorem get_after_teardown_counterexample:
  "DependCall 0 1 \<in> set (new_events lazy_torn_state (snd (get example_env 1 lazy_torn_state))) \<and>
   0 \<in> depIds (watchers (snd (get example_env 1 lazy_torn_state)) 1) \<and>
   1 \<notin> set (subs (snd (get example_env 1 lazy_torn_state)) 0)"
  by (simp add: lazy_torn_state_def lazy_state_def lazy_opts_def model_defs Let_def)

section \<open>The exit paths of get\<close>



section \<open>run\<close>

text \<open>
  C3. For an active watcher, \<open>run\<close> evaluates through \<open>get\<close>; when \<open>get\<close>
  returns a value, the callback is invoked if and only if the value differs from the
  cached one under strict equality, or is an object, or the watcher is deep. It is
  then invoked once, with the new and the old value, and the cached value is already
  the new one at the call (and stays so when the callback throws); otherwise nothing
  happens after \<open>get\<close>. An exception that leaves \<open>get\<close> leaves \<open>run\<close>.
\<close>

theorem run_invokes_callback:
  assumes a: "active (watchers s w)" and g: "get E w s = (r0, s1)"
  shows "\<exists>r s'. run E w s = (r, s') \<and>
     (case r0 of
        Inl e \<Rightarrow> r = Inl e \<and> s' = s1
      | Inr val \<Rightarrow>
          if \<not> strict_eq val (wvalue (watchers s w)) \<or> isObject val \<or> deep (watchers s w)
          then (\<exists>rest. new_events s1 s' =
                         CallbackCall w val (wvalue (watchers s w)) val # rest \<and>
                       (\<forall>e \<in> set rest. \<exists>x. e = HandleError x w)) \<and>
               wvalue (watchers s' w) = val
          else s' = s1 \<and> r = Inr () \<and> wvalue (watchers s' w) = wvalue (watchers s w))"
proof (cases r0)
  case (Inl e)
  then show ?thesis using a g by (simp add: run_def)
next
  case (Inr val)
  note k = get_keeps_flags [OF g, of w]
  show ?thesis
  proof (cases "\<not> strict_eq val (wvalue (watchers s w)) \<or> isObject val \<or> deep (watchers s w)")
    case False
    then have "run E w s = (Inr (), s1)" using a g k Inr by (simp add: run_def)
    then show ?thesis using False k Inr by simp
  next
    case True
    let ?s2 = "upd_watcher w (\<lambda>W. W\<lparr>wvalue := val\<rparr>) s1"
    let ?s3 = "emit (CallbackCall w val (wvalue (watchers s w)) val) ?s2"
    have r: "run E w s =
       (case cbFn E w val (wvalue (watchers s w)) ?s3 of
          None \<Rightarrow> (Inr (), ?s3)
        | Some e \<Rightarrow> if user (watchers s w) then (Inr (), emit (HandleError e w) ?s3)
                    else (Inl e, ?s3))"
      using a g k True Inr
      by (simp add: run_def Let_def upd_watcher_watchers cong: option.case_cong if_cong)
    show ?thesis
    proof (cases "cbFn E w val (wvalue (watchers s w)) ?s3")
      case None
      then show ?thesis using r True Inr
        by (simp add: new_events_def upd_watcher_watchers)
    next
      case (Some e)
      then show ?thesis using r True Inr
        by (simp add: new_events_def upd_watcher_watchers)
    qed
  qed
qed

text \<open>
  The watcher of the example cached 1; after \<open>flag\<close> became false its function
  yields 2, and the callback receives 2 and 1.
\<close>

theorem run_invokes_callback_witness:
  "active (watchers flipped_state 1) \<and>
   fst (get example_env 1 flipped_state) = Inr (JNum 2) \<and>
   new_events (snd (get example_env 1 flipped_state)) (snd (run example_env 1 flipped_state)) =
     [CallbackCall 1 (JNum 2) (JNum 1) (JNum 2)] \<and>
   wvalue (watchers (snd (run example_env 1 flipped_state)) 1) = JNum 2"
proof -
  have a: "active (watchers flipped_state 1)"
    by (simp add: model_defs Let_def)
  have e: "get example_env 1 flipped_state =
             (fst (get example_env 1 flipped_state), snd (get example_env 1 flipped_state))"
    by simp
  have v: "fst (get example_env 1 flipped_state) = Inr (JNum 2)"
    by (simp add: model_defs Let_def)
  have n: "new_events (snd (get example_env 1 flipped_state))
             (snd (run example_env 1 flipped_state)) = [CallbackCall 1 (JNum 2) (JNum 1) (JNum 2)]"
    by (simp add: model_defs Let_def)
  from run_invokes_callback [OF a e, of ] v
  have "wvalue (watchers (snd (run example_env 1 flipped_state)) 1) = JNum 2"
    by (auto simp: strict_eq_def flipped_state_def watched_state_def split: if_splits)
  then show ?thesis using a v n by simp
qed

section \<open>Lazy watchers\<close>

text \<open>
  C9. The constructor of a lazy watcher does not call the evaluation function: it
  records no event, the cached value is undefined and \<open>dirty\<close> is true. \<open>update\<close>
  on a lazy watcher sets \<open>dirty\<close> and does nothing else (no evaluation, no
  subscription change, nothing queued). \<open>evaluate\<close> calls the evaluation function
  exactly once, and when \<open>get\<close> returns a value, stores it as the cached value and
  clears \<open>dirty\<close>.
\<close>

theorem lazy_watcher:
  "(o_lazy opts \<longrightarrow>
      (\<exists>s'. Watcher_new E v (Some opts) rw s = (Inr (Suc (watcher_uid s)), s') \<and>
            wvalue (watchers s' (Suc (watcher_uid s))) = JUndefined \<and>
            dirty (watchers s' (Suc (watcher_uid s))) \<and>
            lazy (watchers s' (Suc (watcher_uid s))) \<and>
            new_events s s' = [])) \<and>
   (lazy (watchers s w) \<longrightarrow>
      (\<exists>s'. update E w s = (Inr (), s') \<and>
            watchers s' w = (watchers s w)\<lparr>dirty := True\<rparr> \<and>
            subs s' = subs s \<and> queue s' = queue s \<and>
            new_events s s' = [UpdateCall w])) \<and>
   (\<forall>val s1. get E w s = (Inr val, s1) \<longrightarrow>
      (\<exists>s'. evaluate E w s = (Inr (), s') \<and>
            wvalue (watchers s' w) = val \<and> \<not> dirty (watchers s' w) \<and>
            getter_calls (new_events s s') = [w]))"
proof (intro conjI impI allI)
  assume "o_lazy opts"
  then show "\<exists>s'. Watcher_new E v (Some opts) rw s = (Inr (Suc (watcher_uid s)), s') \<and>
            wvalue (watchers s' (Suc (watcher_uid s))) = JUndefined \<and>
            dirty (watchers s' (Suc (watcher_uid s))) \<and>
            lazy (watchers s' (Suc (watcher_uid s))) \<and>
            new_events s s' = []"
    by (simp add: Watcher_new_def Let_def upd_watcher_def new_events_def)
next
  assume "lazy (watchers s w)"
  then show "\<exists>s'. update E w s = (Inr (), s') \<and>
            watchers s' w = (watchers s w)\<lparr>dirty := True\<rparr> \<and>
            subs s' = subs s \<and> queue s' = queue s \<and>
            new_events s s' = [UpdateCall w]"
    by (simp add: update_def Let_def upd_watcher_watchers new_events_def)
next
  fix val s1
  assume g: "get E w s = (Inr val, s1)"
  from get_calls [OF g] obtain es where
    es: "trace s1 = trace s @ es" "getter_calls es = [w]" by blast
  show "\<exists>s'. evaluate E w s = (Inr (), s') \<and>
            wvalue (watchers s' w) = val \<and> \<not> dirty (watchers s' w) \<and>
            getter_calls (new_events s s') = [w]"
    using g es by (simp add: evaluate_def upd_watcher_watchers new_events_def)
qed

text \<open>A lazy watcher over the function of the example.\<close>

theorem lazy_watcher_witness:
  "o_lazy lazy_opts \<and> lazy (watchers lazy_state 1) \<and>
   fst (Watcher_new example_env 0 (Some lazy_opts) False flag_state) = Inr 1 \<and>
   wvalue (watchers lazy_state 1) = JUndefined \<and> dirty (watchers lazy_state 1) \<and>
   trace lazy_state = [] \<and>
   fst (update example_env 1 lazy_state) = Inr () \<and>
   new_events lazy_state (snd (update example_env 1 lazy_state)) = [UpdateCall 1] \<and>
   get example_env 1 lazy_state = (Inr (JNum 1), snd (get example_env 1 lazy_state)) \<and>
   wvalue (watchers (snd (evaluate example_env 1 lazy_state)) 1) = JNum 1 \<and>
   dirty (watchers (snd (evaluate example_env 1 lazy_state)) 1) = False \<and>
   getter_calls (new_events lazy_state (snd (evaluate example_env 1 lazy_state))) = [1]"
proof -
  have o: "o_lazy lazy_opts" by (simp add: lazy_opts_def)
  have l: "lazy (watchers lazy_state 1)"
    by (simp add: lazy_state_def lazy_opts_def model_defs Let_def)
  have g: "get example_env 1 lazy_state = (Inr (JNum 1), snd (get example_env 1 lazy_state))"
    by (simp add: lazy_state_def lazy_opts_def model_defs Let_def)
  have c: "fst (Watcher_new example_env 0 (Some lazy_opts) False flag_state) = Inr 1 \<and>
     wvalue (watchers lazy_state 1) = JUndefined \<and> dirty (watchers lazy_state 1) \<and>
     trace lazy_state = []"
    by (simp add: lazy_state_def lazy_opts_def model_defs Let_def)
  note t = lazy_watcher [where s = lazy_state and w = 1 and E = example_env
      and opts = lazy_opts and v = 0 and rw = False]
  from t l obtain s' where "update example_env 1 lazy_state = (Inr (), s')"
    "new_events lazy_state s' = [UpdateCall 1]" by blast
  then have u: "fst (update example_env 1 lazy_state) = Inr () \<and>
     new_events lazy_state (snd (update example_env 1 lazy_state)) = [UpdateCall 1]"
    by simp
  from t g obtain s'' where "evaluate example_env 1 lazy_state = (Inr (), s'')"
    "wvalue (watchers s'' 1) = JNum 1" "\<not> dirty (watchers s'' 1)"
    "getter_calls (new_events lazy_state s'') = [1]" by blast
  then have e: "wvalue (watchers (snd (evaluate example_env 1 lazy_state)) 1) = JNum 1 \<and>
     dirty (watchers (snd (evaluate example_env 1 lazy_state)) 1) = False \<and>
     getter_calls (new_events lazy_state (snd (evaluate example_env 1 lazy_state))) = [1]"
    by simp
  show ?thesis using o l g c u e by simp
qed

section \<open>teardown\<close>



section \<open>notify\<close>

text \<open>
  C7 (as amended). \<open>notify\<close> works on the subscriber list as it is when
  \<open>notify\<close> starts: in a build that is not a production build and with
  \<open>config.async\<close> off, that list sorted by ascending watcher id; otherwise (a
  production build, or \<open>config.async\<close> on) that list as it is. \<open>update\<close> is
  called on its members in that order, whatever the updates do to the subscriber
  lists: on all of them when no \<open>update\<close> throws, and on those up to the one that
  throws otherwise.
\<close>

theorem notify_order:
  assumes "notify E d s = (r, s')"
  shows "notify_subs E d s = (if \<not> production E \<and> \<not> async E then sort (subs s d) else subs s d) \<and>
         (\<exists>k. update_calls (new_events s s') = take k (notify_subs E d s)) \<and>
         (r = Inr () \<longrightarrow> update_calls (new_events s s') = notify_subs E d s)"
  using notify_calls [OF assms] by blast

text \<open>
  Dep 0 with the subscriber list 2, 1; in a development build with
  \<open>config.async\<close> off the updates run in the order 1, 2.
\<close>

theorem notify_order_witness:
  "subs unordered_state 0 = [2, 1] \<and>
   notify dev_sync_env 0 unordered_state =
     (Inr (), snd (notify dev_sync_env 0 unordered_state)) \<and>
   update_calls (new_events unordered_state (snd (notify dev_sync_env 0 unordered_state))) =
     [1, 2]"
proof -
  have a: "subs unordered_state 0 = [2, 1]"
    by (simp add: unordered_state_def second_state_def lazy_state_def lazy_opts_def
        model_defs Let_def)
  have b: "notify dev_sync_env 0 unordered_state =
     (Inr (), snd (notify dev_sync_env 0 unordered_state))"
    by (simp add: unordered_state_def second_state_def lazy_state_def lazy_opts_def
        dev_sync_env_def model_defs Let_def)
  have c: "notify_subs dev_sync_env 0 unordered_state = [1, 2]"
    using a by (simp add: notify_subs_def dev_sync_env_def example_env_def)
  from notify_order [OF b] c
  have "update_calls (new_events unordered_state (snd (notify dev_sync_env 0 unordered_state)))
          = [1, 2]" by simp
  then show ?thesis using a b by simp
qed

text \<open>
  C7 as stated fails in a production build: with \<open>config.async\<close> off the copy is
  not sorted, and the updates run in the order of the subscriber list, 2 then 1.
\<close>

theorem notify_production_counterexample:
  "\<not> async prod_sync_env \<and>
   fst (notify prod_sync_env 0 unordered_state) = Inr () \<and>
   update_calls (new_events unordered_state (snd (notify prod_sync_env 0 unordered_state))) =
     [2, 1]"
  by (simp add: unordered_state_def second_state_def lazy_state_def lazy_opts_def
      prod_sync_env_def model_defs Let_def)

text \<open>
  The copy at work: two synchronous watchers subscribed to Dep 1 both drop it when
  they are re-evaluated, the first one while \<open>notify\<close> is still running; both are
  updated.
\<close>

lemma notify_snapshot_example:
  "subs sync_state 1 = [1, 2] \<and>
   update_calls (new_events sync_state (snd (notify example_env 1 sync_state))) = [1, 2] \<and>
   subs (snd (notify example_env 1 sync_state)) 1 = [] \<and>
   subs (snd (notify example_env 1 sync_state)) 2 = [1, 2]"
  by (simp add: sync_state_def sync_opts_def model_defs Let_def)

section \<open>observe\<close>

text \<open>
  C6. For a value that already carries an Observer, \<open>observe\<close> returns that
  Observer, whatever the bound: no Observer is created and the heap is unchanged (the
  state is unchanged, but for the root counter when \<open>asRootData\<close> is set). For a
  value that is not an object \<open>observe\<close> returns nothing and changes nothing. And
  no call of \<open>observe\<close>, on any value, replaces the Observer an object carries:
  an object is wrapped by at most one Observer.
\<close>

theorem observe_idempotent:
  "(ob (heap s a) = Some i \<and> kind (heap s a) \<noteq> VNodeObject \<longrightarrow>
      observe n E (JRef a) asRootData s = Some (Some i, count_root asRootData (Some i) s) \<and>
      ob_uid (count_root asRootData (Some i) s) = ob_uid s \<and>
      heap (count_root asRootData (Some i) s) = heap s \<and>
      count_root False (Some i) s = s) \<and>
   (\<not> isObject v \<longrightarrow> observe n E v asRootData s = Some (None, s)) \<and>
   (\<forall>x s'. observe n E v asRootData s = Some (x, s') \<longrightarrow>
      (\<forall>b j. ob (heap s b) = Some j \<longrightarrow> ob (heap s' b) = Some j))"
proof (intro conjI impI allI)
  assume h: "ob (heap s a) = Some i \<and> kind (heap s a) \<noteq> VNodeObject"
  then show "observe n E (JRef a) asRootData s = Some (Some i, count_root asRootData (Some i) s)"
    by (simp add: observe_JRef)
  show "ob_uid (count_root asRootData (Some i) s) = ob_uid s"
    by (simp add: count_root_def)
  show "heap (count_root asRootData (Some i) s) = heap s" by simp
  show "count_root False (Some i) s = s" by (simp add: count_root_def)
next
  assume "\<not> isObject v"
  then show "observe n E v asRootData s = Some (None, s)" by (rule observe_prim)
next
  fix x s' b j
  assume "observe n E v asRootData s = Some (x, s')" "ob (heap s b) = Some j"
  then show "ob (heap s' b) = Some j"
    using observe_keeps_ob [of n E v asRootData s x s'] by (simp add: ob_kept_def)
qed

text \<open>The root data of the example, observed again, and a number.\<close>

theorem observe_idempotent_witness:
  "ob (heap root_state 0) = Some 0 \<and> kind (heap root_state 0) \<noteq> VNodeObject \<and>
   observe 0 example_env (JRef 0) False root_state = Some (Some 0, root_state) \<and>
   isObject (JNum 3) = False \<and>
   observe 0 example_env (JNum 3) True root_state = Some (None, root_state) \<and>
   ob_uid root_state = 3"
proof -
  note t = observe_idempotent [where s = root_state and a = 0 and i = 0 and n = 0
      and E = example_env and asRootData = False and v = "JNum 3"]
  note u = observe_idempotent [where s = root_state and n = 0
      and E = example_env and asRootData = True and v = "JNum 3"]
  have "observe 0 example_env (JRef 0) False root_state = Some (Some 0, root_state)"
    using t root_state_facts(1,2) by simp
  moreover have "observe 0 example_env (JNum 3) True root_state = Some (None, root_state)"
    using u by (simp add: isObject_def)
  ultimately show ?thesis using root_state_facts by (simp add: isObject_def)
qed

section \<open>The setter of a reactive property\<close>

text \<open>
  C5. For a reactive property installed by \<open>defineReactive\<close>: assigning a value
  strictly equal to the current one, or NaN when the current value is NaN, changes
  nothing at all (the stored value stays, nobody is notified); and when the field had
  a getter and no setter before its conversion, every write is dropped: the heap, the
  subscriber lists, the watchers and the queue are unchanged and \<open>update\<close> is
  called on nobody (the only event there can be is the call of a custom setter).
\<close>

theorem reactiveSetter_unchanged:
  assumes p: "lookup_prop (heap s a) k = Some p"
    and r: "slot p = Reactive d val getter setter childOb shallow customSetter"
  shows
    "(strict_eq newVal (case getter of Some g \<Rightarrow> userGet E g s | None \<Rightarrow> val) \<or>
      (newVal = JNaN \<and> (case getter of Some g \<Rightarrow> userGet E g s | None \<Rightarrow> val) = JNaN)
        \<longrightarrow> reactiveSetter n E a k newVal s = Some (Inr (), s)) \<and>
     (getter \<noteq> None \<and> setter = None \<longrightarrow>
        (\<exists>s'. reactiveSetter n E a k newVal s = Some (Inr (), s') \<and>
              heap s' = heap s \<and> subs s' = subs s \<and> watchers s' = watchers s \<and>
              queue s' = queue s \<and> update_calls (new_events s s') = [] \<and>
              (new_events s s' = [] \<or> new_events s s' = [CustomSetterCall])))"
proof (intro conjI impI)
  assume "strict_eq newVal (case getter of Some g \<Rightarrow> userGet E g s | None \<Rightarrow> val) \<or>
      (newVal = JNaN \<and> (case getter of Some g \<Rightarrow> userGet E g s | None \<Rightarrow> val) = JNaN)"
  then show "reactiveSetter n E a k newVal s = Some (Inr (), s)"
    using p r by (auto simp: reactiveSetter_def Let_def strict_eq_def)
next
  assume g: "getter \<noteq> None \<and> setter = None"
  show "\<exists>s'. reactiveSetter n E a k newVal s = Some (Inr (), s') \<and>
              heap s' = heap s \<and> subs s' = subs s \<and> watchers s' = watchers s \<and>
              queue s' = queue s \<and> update_calls (new_events s s') = [] \<and>
              (new_events s s' = [] \<or> new_events s s' = [CustomSetterCall])"
    using p r g by (simp add: reactiveSetter_def Let_def new_events_def)
qed

text \<open>
  The field \<open>a\<close> of the root data holds 1 and is assigned 1; the read-only field
  \<open>c\<close> of object 3 is assigned 5.
\<close>

theorem reactiveSetter_unchanged_witness:
  "lookup_prop (heap root_state 0) (KStr ''a'') =
     Some \<lparr>configurable = True, enumerable = True, writable = True,
           slot = Reactive 1 (JNum 1) None None None False False\<rparr> \<and>
   strict_eq (JNum 1) (JNum 1) \<and>
   reactiveSetter 0 example_env 0 (KStr ''a'') (JNum 1) root_state = Some (Inr (), root_state) \<and>
   lookup_prop (heap readonly_state 3) (KStr ''c'') =
     Some \<lparr>configurable = True, enumerable = True, writable = True,
           slot = Reactive 0 JUndefined (Some 7) None None False False\<rparr> \<and>
   reactiveSetter 0 example_env 3 (KStr ''c'') (JNum 5) readonly_state =
     Some (Inr (), readonly_state)"
proof -
  have a: "lookup_prop (heap root_state 0) (KStr ''a'') =
     Some \<lparr>configurable = True, enumerable = True, writable = True,
           slot = Reactive 1 (JNum 1) None None None False False\<rparr>"
    by (simp add: observer_defs model_defs Let_def)
  have c: "lookup_prop (heap readonly_state 3) (KStr ''c'') =
     Some \<lparr>configurable = True, enumerable = True, writable = True,
           slot = Reactive 0 JUndefined (Some 7) None None False False\<rparr>"
    by (simp add: readonly_state_def accessor_state_def observer_defs model_defs Let_def)
  have e: "strict_eq (JNum 1) (JNum 1)" by (simp add: strict_eq_def)
  have "reactiveSetter 0 example_env 0 (KStr ''a'') (JNum 1) root_state = Some (Inr (), root_state)"
    using reactiveSetter_unchanged [OF a, of 1 "JNum 1" None None None False False "JNum 1"
        example_env 0] e by simp
  moreover have "reactiveSetter 0 example_env 3 (KStr ''c'') (JNum 5) readonly_state =
     Some (Inr (), readonly_state)"
    using c by (simp add: reactiveSetter_def Let_def strict_eq_def example_env_def)
  ultimately show ?thesis using a c e by simp
qed

section \<open>set on the root data\<close>

text \<open>
  C1 (as amended). For an object that is the root data of at least one owner (the
  \<open>vmCount\<close> of its Observer is not 0) and a key that is not in it (and is not an
  index of an array target), \<open>set\<close> returns the value and does nothing else but
  warn, in a build that is not a production build: the heap is unchanged, so the key
  is still absent and the value is not stored.
\<close>

theorem set_on_root_data:
  assumes o: "ob (heap s a) = Some i" and c: "vmCount (observers s i) \<noteq> 0"
    and k: "\<not> key_in (heap s a) k"
    and x: "\<not> (kind (heap s a) = ArrayObject \<and> isValidArrayIndex k)"
  shows "set_fn n E (JRef a) k val s =
           Some (Inr val, if \<not> production E then emit (Warn root_warning) s else s) \<and>
         heap (if \<not> production E then emit (Warn root_warning) s else s) = heap s \<and>
         lookup_prop (heap (if \<not> production E then emit (Warn root_warning) s else s) a) k
           = None"
  using assms by (auto simp: set_fn_def Let_def key_in_def)

text \<open>
  C1 as stated fails: after \<open>set(data, 'b', 5)\<close> on the root data of the example
  the key \<open>b\<close> is still absent, and \<open>data.b\<close> is undefined, not 5.
\<close>

theorem set_on_root_data_counterexample:
  "vmCount (observers root_state 0) = 1 \<and>
   key_in (heap root_state 0) (KStr ''b'') = False \<and>
   set_fn 0 example_env (JRef 0) (KStr ''b'') (JNum 5) root_state =
     Some (Inr (JNum 5), emit (Warn root_warning) root_state) \<and>
   lookup_prop (heap (emit (Warn root_warning) root_state) 0) (KStr ''b'') = None \<and>
   read_own example_env (emit (Warn root_warning) root_state) 0 (KStr ''b'') = JUndefined"
  using root_state_facts
  by (simp add: set_fn_def Let_def key_in_def isValidArrayIndex_def read_own_def
      example_env_def Object_prototype_def)

text \<open>The same call, through the theorem.\<close>

theorem set_on_root_data_witness:
  "ob (heap root_state 0) = Some 0 \<and> vmCount (observers root_state 0) \<noteq> 0 \<and>
   key_in (heap root_state 0) (KStr ''b'') = False \<and>
   isValidArrayIndex (KStr ''b'') = False \<and>
   set_fn 0 example_env (JRef 0) (KStr ''b'') (JNum 5) root_state =
     Some (Inr (JNum 5), emit (Warn root_warning) root_state)"
proof -
  have o: "ob (heap root_state 0) = Some 0" by (rule root_state_facts)
  have c: "vmCount (observers root_state 0) \<noteq> 0" by (simp add: root_state_facts)
  have k: "\<not> key_in (heap root_state 0) (KStr ''b'')"
    by (simp add: key_in_def root_state_facts)
  have x: "\<not> (kind (heap root_state 0) = ArrayObject \<and> isValidArrayIndex (KStr ''b''))"
    by (simp add: isValidArrayIndex_def)
  from set_on_root_data [OF o c k x, of 0 example_env "JNum 5"]
  have "set_fn 0 example_env (JRef 0) (KStr ''b'') (JNum 5) root_state =
     Some (Inr (JNum 5), emit (Warn root_warning) root_state)"
    by (simp add: example_env_def)
  then show ?thesis using o c k by (simp add: isValidArrayIndex_def)
qed

section \<open>The array interceptor\<close>

lemma observeArray_trace: "observeArray n E items s = Some s' \<Longrightarrow> trace s' = trace s"
  using observeArray_keeps_ob [of n E items s s'] by (simp add: ob_kept_def)



end
